theory Spec2Isabelle
  imports Main
begin

section \<open>Data model of \<open>src/main.js\<close>\<close>

text \<open>
  The game keeps its logic in a \<open>state\<close> object and the per-cell reveal and flag
  status in the DOM buttons of \<open>view.grid\<close>.  Both are modelled as records; every
  function that mutates them returns the updated values.

  \<^item> \<open>fields'\<close> is \<open>state.fields\<close>, the array of rows, \<open>fields[y][x]\<close>; a mine is the
    number \<open>-1\<close> (the record package reserves the name \<open>fields\<close>).
  \<^item> A button carries \<open>dataset.x\<close>, \<open>dataset.y\<close>, the \<open>disabled\<close> attribute (the cell
    is revealed), the classes \<open>flagged\<close> and \<open>exploded\<close>, and \<open>dataset.value\<close>
    (with \<open>innerText\<close>, which always receives the same number).
  \<^item> \<open>view.restart.className\<close> is the outcome shown on the restart button.
  \<^item> \<open>timerInterval\<close> only records whether an interval handle has been stored; the
    wall-clock value \<open>timerStart\<close> and the text of the displays are not modelled.
\<close>

record state =
  minesCount :: int
  minesLeft :: int
  isGameOver :: bool
  fieldsLeft :: int
  fields' :: "int list list"
  timerInterval :: bool

record button =
  dataX :: nat
  dataY :: nat
  disabled :: bool
  flagged :: bool
  exploded :: bool
  dataValue :: "int option"

datatype restartClass = NoClass | Lost | Won

record view =
  restart :: restartClass
  grid :: "button list"

section \<open>Board generation\<close>

text \<open>
  \<open>updateMineNeighbours\<close>: the two nested \<open>for\<close> loops run over the integer ranges
  \<open>startY..endY\<close> and \<open>startX..endX\<close>; the body increments a cell unless it is a mine.
\<close>

definition incField :: "int list list \<Rightarrow> nat \<Rightarrow> nat \<Rightarrow> int list list" where
  "incField fs x y =
     (if fs ! y ! x \<noteq> -1 then fs[y := (fs ! y)[x := fs ! y ! x + 1]] else fs)"

definition updateMineNeighbours :: "int list list \<Rightarrow> nat \<Rightarrow> nat \<Rightarrow> int list list" where
  "updateMineNeighbours fs mineX mineY =
     (let height = int (length fs);
          width = int (length (fs ! 0));
          startX = max 0 (int mineX - 1);
          startY = max 0 (int mineY - 1);
          endX = min (width - 1) (int mineX + 1);
          endY = min (height - 1) (int mineY + 1)
      in fold (\<lambda>y fs'. fold (\<lambda>x fs''. incField fs'' (nat x) (nat y)) [startX..endX] fs')
           [startY..endY] fs)"

text \<open>
  \<open>insertMines\<close>, first loop: rejection sampling into a \<open>Set\<close>.  The argument
  \<open>draws\<close> is the sequence of values that \<open>Math.floor(Math.random() * size)\<close> takes,
  \<open>k\<close> the number of draws consumed so far.  A JavaScript \<open>Set\<close> iterates in insertion
  order, so the set is a duplicate-free list that grows at its end.  The loop need not
  end (the same index may be drawn forever): not returning is the value \<open>None\<close>.
\<close>

partial_function (option) drawIndices ::
  "(nat \<Rightarrow> nat) \<Rightarrow> int \<Rightarrow> nat \<Rightarrow> nat list \<Rightarrow> nat list option" where
  "drawIndices draws mc k indices =
     (if int (length indices) < mc
      then drawIndices draws mc (Suc k)
             (if draws k \<in> set indices then indices else indices @ [draws k])
      else Some indices)"

declare drawIndices.simps [code]

text \<open>\<open>insertMines\<close>, second loop: \<open>for (const index of indices)\<close>.\<close>

fun placeMines :: "nat \<Rightarrow> int list list \<Rightarrow> nat list \<Rightarrow> int list list" where
  "placeMines width fs [] = fs"
| "placeMines width fs (index # rest) =
     (let y = index div width;
          x = index mod width
      in placeMines width (updateMineNeighbours (fs[y := (fs ! y)[x := -1]]) x y) rest)"

definition insertMines :: "(nat \<Rightarrow> nat) \<Rightarrow> state \<Rightarrow> int \<Rightarrow> state option" where
  "insertMines draws st mc =
     (case drawIndices draws mc 0 [] of
        None \<Rightarrow> None
      | Some indices \<Rightarrow>
          (let width = length (fields' st ! 0)
           in Some (st\<lparr>fields' := placeMines width (fields' st) indices,
                       fieldsLeft := fieldsLeft st - mc\<rparr>)))"

definition initGameState :: "(nat \<Rightarrow> nat) \<Rightarrow> nat \<Rightarrow> nat \<Rightarrow> int \<Rightarrow> state option" where
  "initGameState draws width height mc =
     insertMines draws
       \<lparr>minesCount = mc, minesLeft = mc, isGameOver = False,
        fieldsLeft = int width * int height,
        fields' = replicate height (replicate width 0),
        timerInterval = False\<rparr> mc"

subsection \<open>What a correct board is\<close>

text \<open>
  The edge-clipped 8-neighbourhood of a cell, and the number of mines in it, as the
  specification words them.
\<close>

definition neighbours8 :: "nat \<Rightarrow> nat \<Rightarrow> nat \<Rightarrow> nat \<Rightarrow> (nat \<times> nat) list" where
  "neighbours8 width height x y =
     filter (\<lambda>c. c \<noteq> (x, y))
       (List.product [x - 1 ..< min width (x + 2)] [y - 1 ..< min height (y + 2)])"

definition mineNeighbours :: "int list list \<Rightarrow> nat \<Rightarrow> nat \<Rightarrow> nat" where
  "mineNeighbours fs x y =
     length (filter (\<lambda>(x', y'). fs ! y' ! x' = -1)
       (neighbours8 (length (fs ! 0)) (length fs) x y))"

definition countMines :: "int list list \<Rightarrow> nat" where
  "countMines fs = length (filter (\<lambda>v. v = -1) (concat fs))"

definition shape :: "nat \<Rightarrow> nat \<Rightarrow> int list list \<Rightarrow> bool" where
  "shape width height fs \<longleftrightarrow> length fs = height \<and> (\<forall>row \<in> set fs. length row = width)"

text \<open>
  The board that a set \<open>M\<close> of mine cells determines: \<open>-1\<close> on \<open>M\<close>, elsewhere the number
  of cells of \<open>M\<close> at distance at most one in both coordinates.  \<open>cellOf\<close> is the
  conversion of a linear index that \<open>insertMines\<close> performs.
\<close>

definition near :: "nat \<Rightarrow> nat \<Rightarrow> bool" where
  "near a b \<longleftrightarrow> a \<le> b + 1 \<and> b \<le> a + 1"

definition cellOf :: "nat \<Rightarrow> nat \<Rightarrow> nat \<times> nat" where
  "cellOf width index = (index mod width, index div width)"

definition boardOf :: "(nat \<times> nat) set \<Rightarrow> nat \<Rightarrow> nat \<Rightarrow> int" where
  "boardOf M x y =
     (if (x, y) \<in> M then -1 else int (card {c \<in> M. near (fst c) x \<and> near (snd c) y}))"

definition represents :: "nat \<Rightarrow> nat \<Rightarrow> int list list \<Rightarrow> (nat \<times> nat) set \<Rightarrow> bool" where
  "represents width height fs M \<longleftrightarrow>
     shape width height fs \<and> (\<forall>y<height. \<forall>x<width. fs ! y ! x = boardOf M x y)"

section \<open>The game: buttons, reveal, flags and the end of the game\<close>

text \<open>
  \<open>createFieldButtons\<close> appends one button per cell in row-major order, so the button
  of cell \<open>(x, y)\<close> is \<open>view.grid.children[y * width + x]\<close>.  A button object is
  identified by its position in that list; a function that mutates a button of the
  grid returns the updated list.  \<open>initView\<close> clears the restart button's class and
  every button's \<open>disabled\<close> attribute, classes and \<open>data-value\<close>.
\<close>

definition createFieldButtons :: "state \<Rightarrow> button list" where
  "createFieldButtons st =
     (let height = length (fields' st);
          width = length (fields' st ! 0)
      in concat (map (\<lambda>y. map (\<lambda>x.
           \<lparr>dataX = x, dataY = y, disabled = False, flagged = False, exploded = False,
            dataValue = None\<rparr>) [0..<width]) [0..<height]))"

definition initView :: "view \<Rightarrow> state \<Rightarrow> view" where
  "initView v st =
     v\<lparr>restart := NoClass,
       grid := map (\<lambda>b. b\<lparr>disabled := False, flagged := False, exploded := False,
                              dataValue := None\<rparr>) (grid v)\<rparr>"

definition ensureTimerStarted :: "state \<Rightarrow> state" where
  "ensureTimerStarted st = (if timerInterval st then st else st\<lparr>timerInterval := True\<rparr>)"

text \<open>
  \<open>revealField\<close> returns its boolean result together with the updated state and button.
\<close>

definition revealField :: "state \<Rightarrow> button \<Rightarrow> bool \<times> state \<times> button" where
  "revealField st b =
     (if disabled b then (False, st, b)
      else
        let b1 = b\<lparr>disabled := True, flagged := False\<rparr>;
            x = dataX b;
            y = dataY b
        in if fields' st ! y ! x = -1 then (True, st, b1\<lparr>dataValue := Some (-1)\<rparr>)
           else if fields' st ! y ! x = 0 then (True, st\<lparr>fieldsLeft := fieldsLeft st - 1\<rparr>, b1)
           else (True, st\<lparr>fieldsLeft := fieldsLeft st - 1\<rparr>,
                 b1\<lparr>dataValue := Some (fields' st ! y ! x)\<rparr>))"

text \<open>\<open>revealField(state, grid.children[k])\<close>: the button is updated in the list.\<close>

definition revealChild :: "button list \<Rightarrow> state \<Rightarrow> nat \<Rightarrow> bool \<times> button list \<times> state" where
  "revealChild g st k =
     (case revealField st (g ! k) of (r, st', b') \<Rightarrow> (r, g[k := b'], st'))"

text \<open>
  \<open>gameOver\<close>: the loop over \<open>view.grid.children\<close> reveals every button of a mine cell.
  (\<open>clearInterval\<close> stops the timer and leaves \<open>state.timerInterval\<close> as it is.)
\<close>

definition gameOver :: "view \<Rightarrow> state \<Rightarrow> view \<times> state" where
  "gameOver v st =
     fold (\<lambda>k (v', st').
             let b = grid v' ! k
             in if fields' st' ! dataY b ! dataX b = -1
                then (case revealChild (grid v') st' k of
                        (r, g', st'') \<Rightarrow> (v'\<lparr>grid := g'\<rparr>, st''))
                else (v', st'))
       [0..<length (grid v)] (v, st\<lparr>isGameOver := True\<rparr>)"

text \<open>
  \<open>revealEmptyArea\<close>.  The closure \<open>visit\<close> shares the set \<open>visited\<close>, the buttons and
  the state between its recursive calls; the record \<open>walk\<close> holds the three, and each
  call returns it updated, so that the four calls run one after the other on the
  result of the previous one.
\<close>

record walk =
  visited :: "nat set"
  children :: "button list"
  wstate :: state

definition visitField :: "nat \<Rightarrow> walk \<Rightarrow> walk" where
  \<comment> \<open>\<open>visited.add(index); revealField(state, grid.children[index]);\<close>\<close>
  "visitField index s =
     (case revealChild (children s) (wstate s) index of
        (r, g', st') \<Rightarrow> \<lparr>visited = insert index (visited s), children = g', wstate = st'\<rparr>)"

function visit :: "nat \<Rightarrow> nat \<Rightarrow> int \<Rightarrow> int \<Rightarrow> walk \<Rightarrow> walk" where
  "visit width height i j s =
     (if i < 0 \<or> i \<ge> int width \<or> j < 0 \<or> j \<ge> int height then s
      else
        let index = nat (j * int width + i)
        in if index \<in> visited s then s
           else
             let s' = visitField index s
             in if fields' (wstate s') ! nat j ! nat i \<noteq> 0 then s'
                else visit width height i (j + 1)
                       (visit width height i (j - 1)
                          (visit width height (i + 1) j
                             (visit width height (i - 1) j s'))))"
  by pat_completeness auto

lemma visitField_visited: "visited (visitField index s) = insert index (visited s)"
  by (simp add: visitField_def split: prod.splits)

lemma visit_dom_visited:
  "visit_dom (width, height, i, j, s) \<Longrightarrow> visited s \<subseteq> visited (visit width height i j s)"
proof (induction width height i j s rule: visit.pinduct)
  case (1 width height i j s)
  let ?s' = "visitField (nat (j * int width + i)) s"
  let ?a = "visit width height (i - 1) j ?s'"
  let ?b = "visit width height (i + 1) j ?a"
  let ?c = "visit width height i (j - 1) ?b"
  show ?case
  proof (cases "i < 0 \<or> i \<ge> int width \<or> j < 0 \<or> j \<ge> int height \<or>
                nat (j * int width + i) \<in> visited s \<or>
                fields' (wstate ?s') ! nat j ! nat i \<noteq> 0")
    case True
    then show ?thesis using "1.hyps" by (auto simp: visit.psimps Let_def visitField_visited)
  next
    case False
    then have c: "\<not> (i < 0 \<or> i \<ge> int width \<or> j < 0 \<or> j \<ge> int height)"
      "nat (j * int width + i) \<notin> visited s" "\<not> fields' (wstate ?s') ! nat j ! nat i \<noteq> 0"
      by auto
    have "visited s \<subseteq> visited ?s'" by (auto simp: visitField_visited)
    also have "\<dots> \<subseteq> visited ?a" using "1.IH"(1) [OF c(1) refl c(2) refl c(3)] .
    also have "\<dots> \<subseteq> visited ?b" using "1.IH"(2) [OF c(1) refl c(2) refl c(3)] .
    also have "\<dots> \<subseteq> visited ?c" using "1.IH"(3) [OF c(1) refl c(2) refl c(3)] .
    also have "\<dots> \<subseteq> visited (visit width height i (j + 1) ?c)"
      using "1.IH"(4) [OF c(1) refl c(2) refl c(3)] .
    finally show ?thesis using c "1.hyps" by (simp add: visit.psimps Let_def)
  qed
qed

lemma index_bound:
  assumes "\<not> (i < 0 \<or> int width \<le> i \<or> j < 0 \<or> int height \<le> j)"
  shows "nat (j * int width + i) < width * height"
proof -
  have b: "0 \<le> i" "i < int width" "0 \<le> j" "j + 1 \<le> int height" using assms by auto
  have "(j + 1) * int width \<le> int height * int width"
    using b(4) by (rule mult_right_mono) simp
  then have "j * int width + i < int height * int width"
    using b(2) by (simp add: algebra_simps)
  moreover have "0 \<le> j * int width + i" using b by simp
  ultimately have "nat (j * int width + i) < nat (int height * int width)" by simp
  also have "nat (int height * int width) = width * height"
    by (simp add: nat_mult_distrib mult.commute)
  finally show ?thesis .
qed

lemma visit_measure:
  assumes "x < n" "x \<notin> V" "insert x V \<subseteq> V'"
  shows "card ({..<n} - V') < card ({..<n::nat} - V)"
proof (rule psubset_card_mono)
  show "finite ({..<n} - V)" by simp
  show "{..<n} - V' \<subset> {..<n} - V" using assms by auto
qed

termination visit
proof (relation "measure (\<lambda>(width, height, i, j, s). card ({..<width * height} - visited s))",
       goal_cases)
  case 1
  show ?case by simp
next
  case (2 width height i j s x s')
  have "insert x (visited s) \<subseteq> visited s'" using 2 by (simp add: visitField_visited)
  then show ?case using visit_measure [OF _ 2(3)] index_bound [OF 2(1)] 2(2) by simp
next
  case (3 width height i j s x s')
  have "insert x (visited s) \<subseteq> visited s'" using 3 by (simp add: visitField_visited)
  also have "\<dots> \<subseteq> visited (visit width height (i - 1) j s')"
    using visit_dom_visited [OF 3(6)] .
  finally show ?case using visit_measure [OF _ 3(3)] index_bound [OF 3(1)] 3(2) by simp
next
  case (4 width height i j s x s')
  have "insert x (visited s) \<subseteq> visited s'" using 4 by (simp add: visitField_visited)
  also have "\<dots> \<subseteq> visited (visit width height (i - 1) j s')"
    using visit_dom_visited [OF 4(6)] .
  also have "\<dots> \<subseteq> visited (visit width height (i + 1) j (visit width height (i - 1) j s'))"
    using visit_dom_visited [OF 4(7)] .
  finally show ?case using visit_measure [OF _ 4(3)] index_bound [OF 4(1)] 4(2) by simp
next
  case (5 width height i j s x s')
  have "insert x (visited s) \<subseteq> visited s'" using 5 by (simp add: visitField_visited)
  also have "\<dots> \<subseteq> visited (visit width height (i - 1) j s')"
    using visit_dom_visited [OF 5(6)] .
  also have "\<dots> \<subseteq> visited (visit width height (i + 1) j (visit width height (i - 1) j s'))"
    using visit_dom_visited [OF 5(7)] .
  also have "\<dots> \<subseteq> visited (visit width height i (j - 1)
       (visit width height (i + 1) j (visit width height (i - 1) j s')))"
    using visit_dom_visited [OF 5(8)] .
  finally show ?case using visit_measure [OF _ 5(3)] index_bound [OF 5(1)] 5(2) by simp
qed

declare visit.simps [simp del]

definition revealEmptyArea :: "button list \<Rightarrow> state \<Rightarrow> int \<Rightarrow> int \<Rightarrow> button list \<times> state" where
  "revealEmptyArea g st x y =
     (let height = length (fields' st);
          width = length (fields' st ! 0);
          s = visit width height x y \<lparr>visited = {}, children = g, wstate = st\<rparr>
      in (children s, wstate s))"

text \<open>
  The handlers take the index \<open>k\<close> of the button in \<open>view.grid.children\<close>.
  \<open>classList.toggle\<close> returns whether the class is present afterwards.
\<close>

definition handleFieldFlag :: "view \<Rightarrow> state \<Rightarrow> nat \<Rightarrow> view \<times> state" where
  "handleFieldFlag v st k =
     (let b = grid v ! k
      in if disabled b then (v, st)
         else
           let isFlagged = \<not> flagged b
           in (v\<lparr>grid := (grid v)[k := b\<lparr>flagged := isFlagged\<rparr>]\<rparr>,
               st\<lparr>minesLeft := minesLeft st + (if isFlagged then -1 else 1)\<rparr>))"

definition handleFieldReveal :: "view \<Rightarrow> state \<Rightarrow> nat \<Rightarrow> view \<times> state" where
  "handleFieldReveal v st k =
     (let b = grid v ! k;
          x = dataX b;
          y = dataY b
      in if flagged b then (v, st)
         else
           let (v1, st1) =
                 (if fields' st ! y ! x = -1 then
                    (case revealChild (grid v) st k of
                       (r, g', st') \<Rightarrow>
                         if r then gameOver (v\<lparr>grid := g'[k := (g' ! k)\<lparr>exploded := True\<rparr>],
                                              restart := Lost\<rparr>) st'
                         else (v\<lparr>grid := g'\<rparr>, st'))
                  else if fields' st ! y ! x = 0 then
                    (case revealEmptyArea (grid v) st (int x) (int y) of
                       (g', st') \<Rightarrow> (v\<lparr>grid := g'\<rparr>, st'))
                  else
                    (case revealChild (grid v) st k of
                       (r, g', st') \<Rightarrow> (v\<lparr>grid := g'\<rparr>, st')))
           in if fieldsLeft st1 = 0 then gameOver (v1\<lparr>restart := Won\<rparr>) st1 else (v1, st1))"

text \<open>
  The \<open>mousedown\<close> listener of \<open>handleGameEvents\<close>.  The event's target is a button of
  the grid or another element (\<open>tagName !== 'BUTTON'\<close>); \<open>evButton\<close> is \<open>event.button\<close>.
\<close>

datatype eventTarget = Button nat | OtherElement

record mouseEvent =
  target :: eventTarget
  evButton :: nat

definition mousedown :: "view \<Rightarrow> state \<Rightarrow> mouseEvent \<Rightarrow> view \<times> state" where
  "mousedown v st ev =
     (if isGameOver st then (v, st)
      else
        case target ev of
          OtherElement \<Rightarrow> (v, st)
        | Button k \<Rightarrow>
            let st1 = ensureTimerStarted st
            in if evButton ev = 2 then handleFieldFlag v st1 k
               else handleFieldReveal v st1 k)"

text \<open>A sequence of clicks, from left to right.\<close>

fun clicks :: "view \<times> state \<Rightarrow> mouseEvent list \<Rightarrow> view \<times> state" where
  "clicks s [] = s"
| "clicks s (ev # evs) = clicks (mousedown (fst s) (snd s) ev) evs"

subsection \<open>Well-formed sessions and the cells a cascade has to reveal\<close>

text \<open>
  A session is well formed when the field array is a \<open>width \<times> height\<close> rectangle and the
  buttons are laid out as \<open>createFieldButtons\<close> leaves them.  \<open>valueAt\<close> reads the value
  of the cell with linear index \<open>k\<close>.
\<close>

definition layout :: "nat \<Rightarrow> nat \<Rightarrow> button list \<Rightarrow> bool" where
  "layout width height g \<longleftrightarrow>
     length g = width * height \<and>
     (\<forall>k < width * height. dataX (g ! k) = k mod width \<and> dataY (g ! k) = k div width)"

definition session :: "nat \<Rightarrow> nat \<Rightarrow> view \<Rightarrow> state \<Rightarrow> bool" where
  "session width height v st \<longleftrightarrow>
     0 < width \<and> 0 < height \<and> shape width height (fields' st) \<and> layout width height (grid v)"

definition valueAt :: "nat \<Rightarrow> int list list \<Rightarrow> nat \<Rightarrow> int" where
  "valueAt width fs k = fs ! (k div width) ! (k mod width)"

text \<open>
  The specification's cascade set, on linear indices: the 4-connected region of
  zero-valued cells around the start, and the cells next to that region.
\<close>

definition adj4 :: "nat \<Rightarrow> nat \<Rightarrow> nat \<Rightarrow> nat \<Rightarrow> bool" where
  "adj4 width height k l \<longleftrightarrow>
     k < width * height \<and> l < width * height \<and>
     (k div width = l div width \<and> (k mod width = l mod width + 1 \<or> l mod width = k mod width + 1) \<or>
      k mod width = l mod width \<and> (k div width = l div width + 1 \<or> l div width = k div width + 1))"

inductive_set zeroRegion :: "nat \<Rightarrow> nat \<Rightarrow> int list list \<Rightarrow> nat \<Rightarrow> nat set"
  for width height fs start where
  start: "start \<in> zeroRegion width height fs start"
| step: "k \<in> zeroRegion width height fs start \<Longrightarrow> adj4 width height k l \<Longrightarrow>
         valueAt width fs l = 0 \<Longrightarrow> l \<in> zeroRegion width height fs start"

definition cascadeSet :: "nat \<Rightarrow> nat \<Rightarrow> int list list \<Rightarrow> nat \<Rightarrow> nat set" where
  "cascadeSet width height fs start =
     zeroRegion width height fs start \<union>
     {l. valueAt width fs l \<noteq> 0 \<and> (\<exists>k \<in> zeroRegion width height fs start. adj4 width height k l)}"

text \<open>The button that \<open>revealField\<close> leaves behind, as a function of the old button.\<close>

definition revealed :: "int list list \<Rightarrow> button \<Rightarrow> button" where
  "revealed fs b =
     (if disabled b then b
      else if fs ! dataY b ! dataX b = 0 then b\<lparr>disabled := True, flagged := False\<rparr>
      else b\<lparr>disabled := True, flagged := False, dataValue := Some (fs ! dataY b ! dataX b)\<rparr>)"

subsection \<open>Vocabulary for the traversal\<close>

text \<open>
  \<open>decr\<close> is what one call of \<open>revealField\<close> subtracts from \<open>fieldsLeft\<close>; \<open>walked s t\<close>
  relates a traversal state to a later one: the cells visited in between were revealed,
  nothing else changed.  \<open>visitPost\<close> is the postcondition of one call of \<open>visit\<close>.
\<close>

definition decr :: "int list list \<Rightarrow> button \<Rightarrow> int" where
  "decr fs b = (if disabled b \<or> fs ! dataY b ! dataX b = -1 then 0 else 1)"

definition walked :: "walk \<Rightarrow> walk \<Rightarrow> bool" where
  "walked s t \<longleftrightarrow>
     visited s \<subseteq> visited t \<and>
     visited t - visited s \<subseteq> {..<length (children s)} \<and>
     length (children t) = length (children s) \<and>
     (\<forall>k < length (children s). children t ! k =
        (if k \<in> visited t - visited s then revealed (fields' (wstate s)) (children s ! k)
         else children s ! k)) \<and>
     wstate t = (wstate s)\<lparr>fieldsLeft := fieldsLeft (wstate s) -
        (\<Sum>k \<in> visited t - visited s. decr (fields' (wstate s)) (children s ! k))\<rparr>"

abbreviation oob :: "nat \<Rightarrow> nat \<Rightarrow> int \<Rightarrow> int \<Rightarrow> bool" where
  "oob width height i j \<equiv> i < 0 \<or> i \<ge> int width \<or> j < 0 \<or> j \<ge> int height"

abbreviation idx :: "nat \<Rightarrow> int \<Rightarrow> int \<Rightarrow> nat" where
  "idx width i j \<equiv> nat (j * int width + i)"

definition closedAt :: "nat \<Rightarrow> nat \<Rightarrow> int list list \<Rightarrow> nat set \<Rightarrow> nat \<Rightarrow> bool" where
  "closedAt w h fs V k \<longleftrightarrow> (valueAt w fs k = 0 \<longrightarrow> (\<forall>l. adj4 w h k l \<longrightarrow> l \<in> V))"

definition visitPost :: "nat \<Rightarrow> nat \<Rightarrow> int \<Rightarrow> int \<Rightarrow> walk \<Rightarrow> walk \<Rightarrow> bool" where
  "visitPost w h i j s t \<longleftrightarrow>
     (\<not> oob w h i j \<longrightarrow> idx w i j \<in> visited t) \<and>
     (\<forall>k \<in> visited t - visited s.
        closedAt w h (fields' (wstate s)) (visited t) k \<and>
        (k = idx w i j \<or>
         valueAt w (fields' (wstate s)) (idx w i j) = 0 \<and>
         k \<in> cascadeSet w h (fields' (wstate s)) (idx w i j)))"

subsection \<open>Vocabulary for a reveal request\<close>

text \<open>
  \<open>revealSet\<close> is the set of cells that the \<open>switch\<close> of \<open>handleFieldReveal\<close> reveals for an
  unflagged button \<open>k\<close>; \<open>afterReveal\<close> is the button of cell \<open>l\<close> when the handler returns,
  \<open>left\<close> being the new value of \<open>fieldsLeft\<close>; \<open>winCheck\<close> is the handler's final test.
\<close>

definition mines :: "nat \<Rightarrow> nat \<Rightarrow> int list list \<Rightarrow> nat set" where
  "mines w h fs = {l. l < w * h \<and> valueAt w fs l = -1}"

definition revealSet :: "nat \<Rightarrow> nat \<Rightarrow> int list list \<Rightarrow> button list \<Rightarrow> nat \<Rightarrow> nat set" where
  "revealSet w h fs g k =
     (if valueAt w fs k = -1 then (if disabled (g ! k) then {} else mines w h fs)
      else if valueAt w fs k = 0 then cascadeSet w h fs k
      else {k})"

definition afterReveal ::
  "nat \<Rightarrow> nat \<Rightarrow> int list list \<Rightarrow> button list \<Rightarrow> nat \<Rightarrow> int \<Rightarrow> nat \<Rightarrow> button" where
  "afterReveal w h fs g k left l =
     (if l = k \<and> valueAt w fs k = -1 \<and> \<not> disabled (g ! k)
      then (revealed fs (g ! l))\<lparr>exploded := True\<rparr>
      else if l \<in> revealSet w h fs g k \<or> left = 0 \<and> valueAt w fs l = -1
      then revealed fs (g ! l)
      else g ! l)"

definition winCheck :: "view \<Rightarrow> state \<Rightarrow> view \<times> state" where
  "winCheck v1 st1 =
     (if fieldsLeft st1 = 0 then gameOver (v1\<lparr>restart := Won\<rparr>) st1 else (v1, st1))"

subsection \<open>Sessions as \<open>main\<close> sets them up\<close>

text \<open>
  \<open>main\<close> creates the buttons and calls \<open>initView\<close>; \<open>newView\<close> is the view it leaves.
  An event is valid when its target, if a button, is one of the grid's buttons.
\<close>

definition newView :: "state \<Rightarrow> view" where
  "newView st = initView \<lparr>restart = NoClass, grid = createFieldButtons st\<rparr> st"

definition validEvent :: "nat \<Rightarrow> nat \<Rightarrow> mouseEvent \<Rightarrow> bool" where
  "validEvent width height ev =
     (case target ev of Button k \<Rightarrow> k < width * height | OtherElement \<Rightarrow> True)"

definition revealClick :: "nat \<Rightarrow> mouseEvent" where
  "revealClick k = \<lparr>target = Button k, evButton = 0\<rparr>"

definition flagClick :: "nat \<Rightarrow> mouseEvent" where
  "flagClick k = \<lparr>target = Button k, evButton = 2\<rparr>"

text \<open>
  Three small boards used as examples: the states \<open>initGameState\<close> returns for a
  \<open>5 \<times> 1\<close> board with its mine at index 3, for a \<open>3 \<times> 1\<close> board with its mine at index
  0, and for the \<open>1 \<times> 1\<close> board whose only cell is a mine.
\<close>

definition rowBoard :: state where
  "rowBoard = \<lparr>minesCount = 1, minesLeft = 1, isGameOver = False, fieldsLeft = 4,
                fields' = [[0, 0, 1, -1, 1]], timerInterval = False\<rparr>"

definition tinyBoard :: state where
  "tinyBoard = \<lparr>minesCount = 1, minesLeft = 1, isGameOver = False, fieldsLeft = 2,
                 fields' = [[-1, 1, 0]], timerInterval = False\<rparr>"

definition fullBoard :: state where
  "fullBoard = \<lparr>minesCount = 1, minesLeft = 1, isGameOver = False, fieldsLeft = 0,
                 fields' = [[-1]], timerInterval = False\<rparr>"

text \<open>
  A session is settled when every revealed zero cell has its four neighbours revealed,
  and when, as soon as some cell is revealed and the game is not over, \<open>fieldsLeft\<close> is
  not 0 and the timer has been started.  Every session reached by clicks is settled.
\<close>

definition settled :: "nat \<Rightarrow> nat \<Rightarrow> view \<Rightarrow> state \<Rightarrow> bool" where
  "settled w h v st \<longleftrightarrow>
     (\<forall>k l. disabled (grid v ! k) \<and> valueAt w (fields' st) k = 0 \<and> adj4 w h k l \<longrightarrow>
        disabled (grid v ! l)) \<and>
     ((\<exists>l < w * h. disabled (grid v ! l)) \<and> \<not> isGameOver st \<longrightarrow>
        fieldsLeft st \<noteq> 0 \<and> timerInterval st)"

text \<open>The number of buttons that carry the class \<open>flagged\<close>.\<close>

definition flagCount :: "view \<Rightarrow> nat" where
  "flagCount v = length (filter flagged (grid v))"

text \<open>
  \<open>restartGame\<close>: \<open>Object.assign(state, newState)\<close> overwrites every property of the state
  with that of a newly generated one of the same dimensions and mine count, and
  \<open>initView\<close> resets the view.
\<close>

definition restartGame :: "(nat \<Rightarrow> nat) \<Rightarrow> view \<Rightarrow> state \<Rightarrow> (view \<times> state) option" where
  "restartGame draws v st =
     (case initGameState draws (length (fields' st ! 0)) (length (fields' st)) (minesCount st) of
        None \<Rightarrow> None
      | Some newState \<Rightarrow> Some (initView v newState, newState))"
section \<open>Board generation: the grid after placing mines\<close>

subsection \<open>Grid updates\<close>

lemma shape_nth: "shape w h fs \<Longrightarrow> y < h \<Longrightarrow> length (fs ! y) = w"
  by (simp add: shape_def)

lemma shape_length: "shape w h fs \<Longrightarrow> length fs = h"
  by (simp add: shape_def)

lemma shape_update: "shape w h fs \<Longrightarrow> length r = w \<Longrightarrow> shape w h (fs[y := r])"
  unfolding shape_def using set_update_subset_insert [of fs y r] by auto

lemma shape_replicate: "shape w h (replicate h (replicate w 0))"
  by (simp add: shape_def)

lemma nth_update2:
  assumes "shape w h fs" "y < h" "x < w" "y' < h" "x' < w"
  shows "fs[y := (fs ! y)[x := v]] ! y' ! x' = (if x' = x \<and> y' = y then v else fs ! y' ! x')"
  using assms by (auto simp: shape_def nth_list_update)

lemma incField_shape: "shape w h fs \<Longrightarrow> shape w h (incField fs x y)"
proof (cases "y < h")
  case True
  assume "shape w h fs"
  then show ?thesis using True by (simp add: incField_def shape_update shape_nth)
next
  case False
  assume "shape w h fs"
  then show ?thesis using False by (simp add: incField_def shape_def list_update_beyond)
qed

lemma incField_nth:
  assumes "shape w h fs" "y < h" "x < w" "y' < h" "x' < w"
  shows "incField fs x y ! y' ! x' =
         (if x' = x \<and> y' = y \<and> fs ! y ! x \<noteq> -1 then fs ! y ! x + 1 else fs ! y' ! x')"
proof (cases "fs ! y ! x \<noteq> -1")
  case True
  then have "incField fs x y = fs[y := (fs ! y)[x := fs ! y ! x + 1]]"
    by (simp add: incField_def)
  then show ?thesis using nth_update2 [OF assms, of "fs ! y ! x + 1"] True by simp
next
  case False
  then show ?thesis by (simp add: incField_def)
qed

lemma fold_row:
  assumes "distinct xs" "\<forall>x\<in>set xs. 0 \<le> x \<and> nat x < w" "shape w h fs" "y < h"
  shows "shape w h (fold (\<lambda>x g. incField g (nat x) y) xs fs) \<and>
         (\<forall>y'<h. \<forall>x'<w. fold (\<lambda>x g. incField g (nat x) y) xs fs ! y' ! x' =
            (if y' = y \<and> int x' \<in> set xs \<and> fs ! y' ! x' \<noteq> -1
             then fs ! y' ! x' + 1 else fs ! y' ! x'))"
  using assms
proof (induction xs arbitrary: fs)
  case Nil
  then show ?case by simp
next
  case (Cons a xs)
  let ?g = "incField fs (nat a) y"
  have sh: "shape w h ?g" using Cons.prems by (simp add: incField_shape)
  have a: "0 \<le> a" "nat a < w" "a \<notin> set xs" using Cons.prems by auto
  have IH: "shape w h (fold (\<lambda>x g. incField g (nat x) y) xs ?g) \<and>
         (\<forall>y'<h. \<forall>x'<w. fold (\<lambda>x g. incField g (nat x) y) xs ?g ! y' ! x' =
            (if y' = y \<and> int x' \<in> set xs \<and> ?g ! y' ! x' \<noteq> -1
             then ?g ! y' ! x' + 1 else ?g ! y' ! x'))"
    using Cons.IH [OF _ _ sh] Cons.prems by simp
  show ?case
  proof (intro conjI allI impI)
    show "shape w h (fold (\<lambda>x g. incField g (nat x) y) (a # xs) fs)"
      using IH by simp
  next
    fix y' x' assume b: "y' < h" "x' < w"
    have g: "?g ! y' ! x' =
         (if x' = nat a \<and> y' = y \<and> fs ! y ! (nat a) \<noteq> -1 then fs ! y ! (nat a) + 1 else fs ! y' ! x')"
      using incField_nth [OF Cons.prems(3) Cons.prems(4) a(2) b] .
    have "fold (\<lambda>x g. incField g (nat x) y) (a # xs) fs ! y' ! x' =
          (if y' = y \<and> int x' \<in> set xs \<and> ?g ! y' ! x' \<noteq> -1
             then ?g ! y' ! x' + 1 else ?g ! y' ! x')"
      using IH b by simp
    also have "\<dots> = (if y' = y \<and> int x' \<in> set (a # xs) \<and> fs ! y' ! x' \<noteq> -1
             then fs ! y' ! x' + 1 else fs ! y' ! x')"
      using a g by (cases "x' = nat a") auto
    finally show "fold (\<lambda>x g. incField g (nat x) y) (a # xs) fs ! y' ! x' =
       (if y' = y \<and> int x' \<in> set (a # xs) \<and> fs ! y' ! x' \<noteq> -1
             then fs ! y' ! x' + 1 else fs ! y' ! x')" .
  qed
qed

lemma fold_rows:
  assumes "distinct xs" "\<forall>x\<in>set xs. 0 \<le> x \<and> nat x < w"
    "distinct ys" "\<forall>y\<in>set ys. 0 \<le> y \<and> nat y < h" "shape w h fs"
  shows "shape w h (fold (\<lambda>y g. fold (\<lambda>x g'. incField g' (nat x) (nat y)) xs g) ys fs) \<and>
         (\<forall>y'<h. \<forall>x'<w.
            fold (\<lambda>y g. fold (\<lambda>x g'. incField g' (nat x) (nat y)) xs g) ys fs ! y' ! x' =
            (if int y' \<in> set ys \<and> int x' \<in> set xs \<and> fs ! y' ! x' \<noteq> -1
             then fs ! y' ! x' + 1 else fs ! y' ! x'))"
  using assms(3,4,5)
proof (induction ys arbitrary: fs)
  case Nil
  then show ?case by simp
next
  case (Cons a ys)
  let ?g = "fold (\<lambda>x g'. incField g' (nat x) (nat a)) xs fs"
  have a: "0 \<le> a" "nat a < h" "a \<notin> set ys" using Cons.prems by auto
  have row: "shape w h ?g"
    "\<And>y' x'. y' < h \<Longrightarrow> x' < w \<Longrightarrow> ?g ! y' ! x' =
            (if y' = nat a \<and> int x' \<in> set xs \<and> fs ! y' ! x' \<noteq> -1
             then fs ! y' ! x' + 1 else fs ! y' ! x')"
    using fold_row [OF assms(1,2) Cons.prems(3) a(2)] by auto
  have IH: "shape w h (fold (\<lambda>y g. fold (\<lambda>x g'. incField g' (nat x) (nat y)) xs g) ys ?g)"
    "\<And>y' x'. y' < h \<Longrightarrow> x' < w \<Longrightarrow>
       fold (\<lambda>y g. fold (\<lambda>x g'. incField g' (nat x) (nat y)) xs g) ys ?g ! y' ! x' =
            (if int y' \<in> set ys \<and> int x' \<in> set xs \<and> ?g ! y' ! x' \<noteq> -1
             then ?g ! y' ! x' + 1 else ?g ! y' ! x')"
    using Cons.IH [OF _ _ row(1)] Cons.prems by auto
  show ?case
  proof (intro conjI allI impI)
    show "shape w h (fold (\<lambda>y g. fold (\<lambda>x g'. incField g' (nat x) (nat y)) xs g) (a # ys) fs)"
      using IH(1) by simp
  next
    fix y' x' assume b: "y' < h" "x' < w"
    show "fold (\<lambda>y g. fold (\<lambda>x g'. incField g' (nat x) (nat y)) xs g) (a # ys) fs ! y' ! x' =
       (if int y' \<in> set (a # ys) \<and> int x' \<in> set xs \<and> fs ! y' ! x' \<noteq> -1
             then fs ! y' ! x' + 1 else fs ! y' ! x')"
      using IH(2) [OF b] row(2) [OF b] a by (cases "y' = nat a") auto
  qed
qed


lemma upd_ranges:
  assumes "shape w h fs" "mx < w" "my < h"
  shows "shape w h (updateMineNeighbours fs mx my)"
    and "\<And>x y. x < w \<Longrightarrow> y < h \<Longrightarrow> updateMineNeighbours fs mx my ! y ! x =
     (if int y \<in> set [max 0 (int my - 1)..min (int h - 1) (int my + 1)] \<and>
         int x \<in> set [max 0 (int mx - 1)..min (int w - 1) (int mx + 1)] \<and> fs ! y ! x \<noteq> -1
      then fs ! y ! x + 1 else fs ! y ! x)"
proof -
  let ?xs = "[max 0 (int mx - 1)..min (int w - 1) (int mx + 1)]"
  let ?ys = "[max 0 (int my - 1)..min (int h - 1) (int my + 1)]"
  have w: "length (fs ! 0) = w" "length fs = h" using assms by (auto simp: shape_def)
  have dx: "distinct ?xs" and dy: "distinct ?ys" by simp_all
  have bx: "\<forall>x\<in>set ?xs. 0 \<le> x \<and> nat x < w" using assms(2) by auto
  have by': "\<forall>y\<in>set ?ys. 0 \<le> y \<and> nat y < h" using assms(3) by auto
  have eq: "updateMineNeighbours fs mx my =
        fold (\<lambda>y g. fold (\<lambda>x g'. incField g' (nat x) (nat y)) ?xs g) ?ys fs"
    unfolding updateMineNeighbours_def Let_def w ..
  note F = fold_rows [OF dx bx dy by' assms(1)]
  show "shape w h (updateMineNeighbours fs mx my)"
    unfolding eq using F by (rule conjunct1)
  show "\<And>x y. x < w \<Longrightarrow> y < h \<Longrightarrow> updateMineNeighbours fs mx my ! y ! x =
     (if int y \<in> set ?ys \<and> int x \<in> set ?xs \<and> fs ! y ! x \<noteq> -1
      then fs ! y ! x + 1 else fs ! y ! x)"
    unfolding eq using F by blast
qed

lemma updateMineNeighbours_nth:
  assumes "shape w h fs" "mx < w" "my < h" "x < w" "y < h"
  shows "updateMineNeighbours fs mx my ! y ! x =
         (if near mx x \<and> near my y \<and> fs ! y ! x \<noteq> -1 then fs ! y ! x + 1 else fs ! y ! x)"
proof -
  have 1: "int y \<in> set [max 0 (int my - 1)..min (int h - 1) (int my + 1)] \<longleftrightarrow> near my y"
    using assms(3,5) by (auto simp: near_def)
  have 2: "int x \<in> set [max 0 (int mx - 1)..min (int w - 1) (int mx + 1)] \<longleftrightarrow> near mx x"
    using assms(2,4) by (auto simp: near_def)
  show ?thesis
    unfolding upd_ranges(2) [OF assms(1,2,3,4,5)] 1 2 by simp
qed

subsection \<open>Placing a list of mines\<close>

lemma cellOf_inj: "0 < w \<Longrightarrow> cellOf w i = cellOf w j \<Longrightarrow> i = j"
  unfolding cellOf_def by (metis div_mult_mod_eq prod.inject)

lemma cellOf_bounds:
  assumes "0 < (w::nat)" "i < w * h"
  shows "i mod w < w \<and> i div w < h"
proof
  note w = assms(1) and i = assms(2)
  show "i mod w < w" using w by simp
  have "i < h * w" using i by (simp add: mult.commute)
  then show "i div w < h" by (rule less_mult_imp_div_less)
qed

lemma boardOf_insert:
  assumes "finite M" "c \<notin> M"
  shows "boardOf (insert c M) x y =
         (if (x, y) = c then -1
          else if (x, y) \<in> M then -1
          else boardOf M x y + (if near (fst c) x \<and> near (snd c) y then 1 else 0))"
proof -
  have fin: "finite {d \<in> M. near (fst d) x \<and> near (snd d) y}" using assms(1) by simp
  have "{d \<in> insert c M. near (fst d) x \<and> near (snd d) y} =
        (if near (fst c) x \<and> near (snd c) y
         then insert c {d \<in> M. near (fst d) x \<and> near (snd d) y}
         else {d \<in> M. near (fst d) x \<and> near (snd d) y})"
    by auto
  moreover have "c \<notin> {d \<in> M. near (fst d) x \<and> near (snd d) y}" using assms(2) by simp
  ultimately have "card {d \<in> insert c M. near (fst d) x \<and> near (snd d) y} =
        card {d \<in> M. near (fst d) x \<and> near (snd d) y} +
        (if near (fst c) x \<and> near (snd c) y then 1 else 0)"
    using fin by (cases "near (fst c) x \<and> near (snd c) y") simp_all
  then show ?thesis by (auto simp: boardOf_def)
qed

lemma boardOf_not_mine: "(x, y) \<notin> M \<Longrightarrow> boardOf M x y \<noteq> -1"
  by (simp add: boardOf_def)

lemma place_one:
  assumes rep: "represents w h fs M" and fin: "finite M"
    and x: "x < w" and y: "y < h" and new: "(x, y) \<notin> M"
  shows "represents w h (updateMineNeighbours (fs[y := (fs ! y)[x := -1]]) x y) (insert (x, y) M)"
proof -
  let ?g = "fs[y := (fs ! y)[x := -1]]"
  have sh: "shape w h fs" using rep by (simp add: represents_def)
  have shg: "shape w h ?g" using sh y by (simp add: shape_update shape_nth)
  have g: "\<And>x' y'. x' < w \<Longrightarrow> y' < h \<Longrightarrow>
             ?g ! y' ! x' = (if x' = x \<and> y' = y then -1 else boardOf M x' y')"
    using nth_update2 [OF sh y x] rep by (simp add: represents_def)
  show ?thesis
    unfolding represents_def
  proof (intro conjI allI impI)
    show "shape w h (updateMineNeighbours ?g x y)"
      using upd_ranges(1) [OF shg x y] .
  next
    fix y' x' assume b: "y' < h" "x' < w"
    have "updateMineNeighbours ?g x y ! y' ! x' =
          (if near x x' \<and> near y y' \<and> ?g ! y' ! x' \<noteq> -1 then ?g ! y' ! x' + 1 else ?g ! y' ! x')"
      using updateMineNeighbours_nth [OF shg x y b(2) b(1)] .
    also have "\<dots> = boardOf (insert (x, y) M) x' y'"
      unfolding g [OF b(2) b(1)] boardOf_insert [OF fin new]
      using boardOf_not_mine [of x' y' M] by (auto simp: boardOf_def)
    finally show "updateMineNeighbours ?g x y ! y' ! x' = boardOf (insert (x, y) M) x' y'" .
  qed
qed

lemma placeMines_represents:
  assumes "0 < w" "distinct is" "\<forall>i\<in>set is. i < w * h"
    "represents w h fs M" "finite M" "cellOf w ` set is \<inter> M = {}"
  shows "represents w h (placeMines w fs is) (M \<union> cellOf w ` set is)"
  using assms(2-)
proof (induction "is" arbitrary: fs M)
  case Nil
  then show ?case by simp
next
  case (Cons i "is")
  let ?x = "i mod w" and ?y = "i div w"
  have b: "?x < w" "?y < h" using cellOf_bounds [OF assms(1), of i h] Cons.prems by auto
  have new: "(?x, ?y) \<notin> M" using Cons.prems(5) by (auto simp: cellOf_def)
  have rep: "represents w h (updateMineNeighbours (fs[?y := (fs ! ?y)[?x := -1]]) ?x ?y)
               (insert (?x, ?y) M)"
    using place_one [OF Cons.prems(3,4) b new] .
  have disj: "cellOf w ` set is \<inter> insert (?x, ?y) M = {}"
  proof -
    have "cellOf w i \<notin> cellOf w ` set is"
      using Cons.prems(1) cellOf_inj [OF assms(1)] by auto
    then show ?thesis using Cons.prems(5) by (auto simp: cellOf_def)
  qed
  have "represents w h (placeMines w (updateMineNeighbours (fs[?y := (fs ! ?y)[?x := -1]]) ?x ?y) is)
          (insert (?x, ?y) M \<union> cellOf w ` set is)"
    using Cons.IH [OF _ _ rep _ disj] Cons.prems by simp
  moreover have "insert (?x, ?y) M \<union> cellOf w ` set is = M \<union> cellOf w ` set (i # is)"
    by (auto simp: cellOf_def)
  ultimately show ?case by (simp add: Let_def)
qed

lemma represents_empty: "represents w h (replicate h (replicate w 0)) {}"
  by (simp add: represents_def shape_replicate boardOf_def)

lemma placeMines_board:
  assumes "0 < w" "distinct is" "\<forall>i\<in>set is. i < w * h"
  shows "represents w h (placeMines w (replicate h (replicate w 0)) is) (cellOf w ` set is)"
  using placeMines_represents [OF assms represents_empty] by simp

subsection \<open>Sampling, counting mines and neighbours\<close>

lemma drawIndices_sound:
  assumes "drawIndices draws mc k acc = Some r" "distinct acc" "int (length acc) \<le> mc"
  shows "distinct r \<and> int (length r) = mc \<and> set r \<subseteq> set acc \<union> range draws"
proof -
  have "distinct acc \<longrightarrow> int (length acc) \<le> mc \<longrightarrow>
         distinct r \<and> int (length r) = mc \<and> set r \<subseteq> set acc \<union> range draws"
  proof (rule drawIndices.raw_induct [where P = "\<lambda>draws mc k acc r.
          distinct acc \<longrightarrow> int (length acc) \<le> mc \<longrightarrow>
          distinct r \<and> int (length r) = mc \<and> set r \<subseteq> set acc \<union> range draws", OF _ assms(1)],
         goal_cases)
    case (1 f draws mc k acc r)
    show ?case
    proof (cases "int (length acc) < mc")
      case True
      let ?acc = "if draws k \<in> set acc then acc else acc @ [draws k]"
      have step: "f draws mc (Suc k) ?acc = Some r" using 1(2) True by simp
      have IH: "distinct ?acc \<longrightarrow> int (length ?acc) \<le> mc \<longrightarrow>
          distinct r \<and> int (length r) = mc \<and> set r \<subseteq> set ?acc \<union> range draws"
        using 1(1) [OF step] .
      show ?thesis
      proof (intro impI)
        assume d: "distinct acc" and l: "int (length acc) \<le> mc"
        have "distinct ?acc" using d by simp
        moreover have "int (length ?acc) \<le> mc" using True by simp
        ultimately have r: "distinct r \<and> int (length r) = mc \<and> set r \<subseteq> set ?acc \<union> range draws"
          using IH by blast
        moreover have "set ?acc \<subseteq> set acc \<union> range draws" by auto
        ultimately show "distinct r \<and> int (length r) = mc \<and> set r \<subseteq> set acc \<union> range draws"
          by blast
      qed
    next
      case False
      then have "r = acc" using 1(2) by simp
      then show ?thesis using False by auto
    qed
  qed
  then show ?thesis using assms(2,3) by blast
qed

lemma concat_shape:
  assumes "shape w h fs" "0 < w"
  shows "concat fs = map (\<lambda>i. fs ! (i div w) ! (i mod w)) [0..<w * h]"
  using assms(1)
proof (induction fs arbitrary: h)
  case Nil
  then show ?case by (simp add: shape_def)
next
  case (Cons row rest)
  obtain h' where h: "h = Suc h'" and sh: "shape w h' rest" and row: "length row = w"
    using Cons.prems by (cases h) (auto simp: shape_def)
  have IH: "concat rest = map (\<lambda>i. rest ! (i div w) ! (i mod w)) [0..<w * h']"
    using Cons.IH [OF sh] .
  have split: "[0..<w * h] = [0..<w] @ map (\<lambda>i. i + w) [0..<w * h']"
    unfolding h using upt_add_eq_append [of 0 w "w * h'"] by (simp add: map_add_upt add.commute)
  have 1: "map (\<lambda>i. (row # rest) ! (i div w) ! (i mod w)) [0..<w] = row"
    using row by (auto intro!: nth_equalityI)
  have 2: "map (\<lambda>i. (row # rest) ! (i div w) ! (i mod w)) (map (\<lambda>i. i + w) [0..<w * h']) =
           map (\<lambda>i. rest ! (i div w) ! (i mod w)) [0..<w * h']"
  proof -
    have "\<And>x. (x + w) div w = Suc (x div w)" using assms(2) by (simp add: div_add_self2)
    then show ?thesis by (simp add: comp_def)
  qed
  show ?case unfolding split map_append 1 2 using IH by simp
qed

lemma countMines_card:
  assumes "shape w h fs" "0 < w"
  shows "countMines fs = card {i. i < w * h \<and> fs ! (i div w) ! (i mod w) = -1}"
proof -
  have "countMines fs =
        length (filter (\<lambda>i. fs ! (i div w) ! (i mod w) = -1) [0..<w * h])"
    unfolding countMines_def concat_shape [OF assms] filter_map length_map comp_def ..
  also have "\<dots> = card ({i. fs ! (i div w) ! (i mod w) = -1} \<inter> set [0..<w * h])"
    by (rule distinct_length_filter) simp
  also have "{i. fs ! (i div w) ! (i mod w) = -1} \<inter> set [0..<w * h] =
             {i. i < w * h \<and> fs ! (i div w) ! (i mod w) = -1}"
    by auto
  finally show ?thesis .
qed

lemma boardOf_mine_iff: "boardOf M x y = -1 \<longleftrightarrow> (x, y) \<in> M"
  by (simp add: boardOf_def)

lemma countMines_represents:
  assumes "represents w h fs (cellOf w ` I)" "0 < w" "\<forall>i\<in>I. i < w * h"
  shows "countMines fs = card I"
proof -
  have sh: "shape w h fs" using assms(1) by (simp add: represents_def)
  have "{i. i < w * h \<and> fs ! (i div w) ! (i mod w) = -1} = I"
  proof (intro set_eqI iffI)
    fix i assume "i \<in> {i. i < w * h \<and> fs ! (i div w) ! (i mod w) = -1}"
    then have i: "i < w * h" and m: "fs ! (i div w) ! (i mod w) = -1" by auto
    have "boardOf (cellOf w ` I) (i mod w) (i div w) = -1"
      using assms(1) cellOf_bounds [OF assms(2) i] m by (simp add: represents_def)
    then have "cellOf w i \<in> cellOf w ` I" by (simp add: boardOf_mine_iff cellOf_def)
    then show "i \<in> I" using cellOf_inj [OF assms(2)] by auto
  next
    fix i assume iI: "i \<in> I"
    then have i: "i < w * h" using assms(3) by simp
    have "(i mod w, i div w) \<in> cellOf w ` I" using iI by (auto simp: cellOf_def)
    then have "boardOf (cellOf w ` I) (i mod w) (i div w) = -1" by (simp add: boardOf_mine_iff)
    then have "fs ! (i div w) ! (i mod w) = -1"
      using assms(1) cellOf_bounds [OF assms(2) i] by (simp add: represents_def)
    then show "i \<in> {i. i < w * h \<and> fs ! (i div w) ! (i mod w) = -1}" using i by simp
  qed
  then show ?thesis using countMines_card [OF sh assms(2)] by simp
qed

lemma neighbours8_set:
  "set (neighbours8 w h x y) =
     {c. fst c < w \<and> snd c < h \<and> near (fst c) x \<and> near (snd c) y \<and> c \<noteq> (x, y)}"
  by (auto simp: neighbours8_def near_def)

lemma neighbours8_distinct: "distinct (neighbours8 w h x y)"
  by (simp add: neighbours8_def distinct_product)

lemma neighbours8_length:
  assumes "x < w" "y < h"
  shows "length (neighbours8 w h x y) \<le> 8"
proof -
  let ?l = "List.product [x - 1 ..< min w (x + 2)] [y - 1 ..< min h (y + 2)]"
  have mem: "(x, y) \<in> set ?l" using assms by auto
  have "length [x - 1 ..< min w (x + 2)] \<le> 3" "length [y - 1 ..< min h (y + 2)] \<le> 3"
    by auto
  then have "length ?l \<le> 3 * 3" unfolding length_product by (rule mult_le_mono)
  moreover have "length (filter (\<lambda>c. \<not> c \<noteq> (x, y)) ?l) > 0"
    using mem by (simp add: filter_empty_conv del: set_product)
  moreover have "length (filter (\<lambda>c. c \<noteq> (x, y)) ?l) + length (filter (\<lambda>c. \<not> c \<noteq> (x, y)) ?l)
                 = length ?l"
    by (rule sum_length_filter_compl)
  ultimately show ?thesis unfolding neighbours8_def by linarith
qed

lemma mineNeighbours_represents:
  assumes rep: "represents w h fs M" and inb: "\<forall>c\<in>M. fst c < w \<and> snd c < h"
    and x: "x < w" and y: "y < h" and nm: "(x, y) \<notin> M"
  shows "int (mineNeighbours fs x y) = boardOf M x y"
proof -
  have sh: "shape w h fs" using rep by (simp add: represents_def)
  have dims: "length (fs ! 0) = w" "length fs = h" using sh x y by (auto simp: shape_def)
  have "mineNeighbours fs x y =
        card ({c. (case c of (x', y') \<Rightarrow> fs ! y' ! x' = -1)} \<inter> set (neighbours8 w h x y))"
    unfolding mineNeighbours_def dims
    by (rule distinct_length_filter) (rule neighbours8_distinct)
  also have "{c. (case c of (x', y') \<Rightarrow> fs ! y' ! x' = -1)} \<inter> set (neighbours8 w h x y) =
             {c \<in> M. near (fst c) x \<and> near (snd c) y}"
  proof (intro set_eqI iffI)
    fix c assume "c \<in> {c. (case c of (x', y') \<Rightarrow> fs ! y' ! x' = -1)} \<inter> set (neighbours8 w h x y)"
    then have c: "fs ! snd c ! fst c = -1" "fst c < w" "snd c < h"
        "near (fst c) x" "near (snd c) y"
      by (auto simp: neighbours8_set)
    have "boardOf M (fst c) (snd c) = -1" using rep c by (simp add: represents_def)
    then show "c \<in> {c \<in> M. near (fst c) x \<and> near (snd c) y}"
      using c by (simp add: boardOf_mine_iff)
  next
    fix c assume "c \<in> {c \<in> M. near (fst c) x \<and> near (snd c) y}"
    then have c: "c \<in> M" "near (fst c) x" "near (snd c) y" by auto
    have b: "fst c < w" "snd c < h" using inb c(1) by auto
    have "boardOf M (fst c) (snd c) = -1" using c(1) by (simp add: boardOf_mine_iff)
    then have "fs ! snd c ! fst c = -1" using rep b by (simp add: represents_def)
    moreover have "c \<noteq> (x, y)" using c(1) nm by auto
    ultimately show "c \<in> {c. (case c of (x', y') \<Rightarrow> fs ! y' ! x' = -1)} \<inter> set (neighbours8 w h x y)"
      using b c by (auto simp: neighbours8_set)
  qed
  finally show ?thesis using nm by (simp add: boardOf_def)
qed

lemma mineNeighbours_le: 
  assumes "shape w h fs" "x < w" "y < h"
  shows "mineNeighbours fs x y \<le> 8"
proof -
  have dims: "length (fs ! 0) = w" "length fs = h" using assms by (auto simp: shape_def)
  have "mineNeighbours fs x y \<le> length (neighbours8 w h x y)"
    unfolding mineNeighbours_def dims by (rule length_filter_le)
  then show ?thesis using neighbours8_length [OF assms(2,3)] by linarith
qed

subsection \<open>The generated board\<close>

lemma represents_unique:
  assumes "represents w h f M" "represents w h g M"
  shows "f = g"
proof (rule nth_equalityI)
  show "length f = length g" using assms by (simp add: represents_def shape_def)
next
  fix y assume y: "y < length f"
  then have yh: "y < h" using assms(1) by (simp add: represents_def shape_def)
  have lf: "length (f ! y) = w" and lg: "length (g ! y) = w"
    using assms yh by (auto simp: represents_def shape_nth)
  show "f ! y = g ! y"
  proof (rule nth_equalityI)
    show "length (f ! y) = length (g ! y)" using lf lg by simp
  next
    fix x assume "x < length (f ! y)"
    then have "x < w" using lf by simp
    then show "f ! y ! x = g ! y ! x" using assms yh by (simp add: represents_def)
  qed
qed

lemma initGameState_fields:
  assumes "0 < height" "initGameState draws width height mc = Some st"
  obtains indices where "drawIndices draws mc 0 [] = Some indices"
    and "fields' st = placeMines width (replicate height (replicate width 0)) indices"
    and "fieldsLeft st = int width * int height - mc"
    and "minesCount st = mc" and "minesLeft st = mc" and "\<not> isGameOver st"
proof -
  from assms(2) obtain indices where d: "drawIndices draws mc 0 [] = Some indices"
    by (auto simp: initGameState_def insertMines_def split: option.splits)
  have "length (replicate height (replicate width (0::int)) ! 0) = width"
    using assms(1) by simp
  then have "st = \<lparr>minesCount = mc, minesLeft = mc, isGameOver = False,
        fieldsLeft = int width * int height - mc,
        fields' = placeMines width (replicate height (replicate width 0)) indices,
        timerInterval = False\<rparr>"
    using assms(2) d by (simp add: initGameState_def insertMines_def)
  then show thesis using d that by simp
qed

lemma generated_board:
  assumes w: "0 < width" and h: "0 < height" and mc: "0 \<le> mc"
    and dr: "\<forall>k. draws k < width * height"
    and st: "initGameState draws width height mc = Some st"
  obtains M where "represents width height (fields' st) M"
    and "\<forall>c\<in>M. fst c < width \<and> snd c < height"
    and "int (countMines (fields' st)) = mc"
proof -
  from initGameState_fields [OF h st] obtain indices where
    d: "drawIndices draws mc 0 [] = Some indices" and
    f: "fields' st = placeMines width (replicate height (replicate width 0)) indices"
    by blast
  have s: "distinct indices" "int (length indices) = mc" "set indices \<subseteq> range draws"
    using drawIndices_sound [OF d] mc by auto
  have inb: "\<forall>i\<in>set indices. i < width * height" using s(3) dr by auto
  have rep: "represents width height (fields' st) (cellOf width ` set indices)"
    unfolding f using placeMines_board [OF w s(1) inb] .
  have "countMines (fields' st) = card (set indices)"
    using countMines_represents [OF rep w inb] .
  then have cnt: "int (countMines (fields' st)) = mc"
    using s(1,2) by (simp add: distinct_card)
  have "\<forall>c\<in>cellOf width ` set indices. fst c < width \<and> snd c < height"
    using inb cellOf_bounds [OF w] by (auto simp: cellOf_def)
  then show thesis using rep cnt that by blast
qed

lemma represents_counts:
  assumes rep: "represents w h fs M" and inb: "\<forall>c\<in>M. fst c < w \<and> snd c < h"
    and x: "x < w" and y: "y < h" and nm: "fs ! y ! x \<noteq> -1"
  shows "fs ! y ! x = int (mineNeighbours fs x y) \<and> 0 \<le> fs ! y ! x \<and> fs ! y ! x \<le> 8"
proof -
  have v: "fs ! y ! x = boardOf M x y" using rep x y by (simp add: represents_def)
  then have "(x, y) \<notin> M" using nm by (simp add: boardOf_mine_iff)
  then have eq: "int (mineNeighbours fs x y) = boardOf M x y"
    using mineNeighbours_represents [OF rep inb x y] by simp
  have "shape w h fs" using rep by (simp add: represents_def)
  then have "mineNeighbours fs x y \<le> 8" using x y by (rule mineNeighbours_le)
  then show ?thesis using v eq by simp
qed

text \<open>
  Claim C1.  Every grid that board generation returns for \<open>width > 0\<close>, \<open>height > 0\<close>
  and \<open>0 \<le> mineCount \<le> width * height\<close> has exactly \<open>mineCount\<close> cells of value \<open>-1\<close>,
  and every other cell holds the number of mines in its edge-clipped 8-neighbourhood,
  a number between 0 and 8.  The drawn indices are those of
  \<open>Math.floor(Math.random() * size)\<close>, hence below \<open>size = width * height\<close>.
\<close>

theorem board_generation_correct:
  assumes "0 < width" "0 < height" "0 \<le> mc" "mc \<le> int width * int height"
    and "\<forall>k. draws k < width * height"
    and "initGameState draws width height mc = Some st"
  shows "shape width height (fields' st) \<and> int (countMines (fields' st)) = mc \<and>
         (\<forall>y<height. \<forall>x<width. fields' st ! y ! x \<noteq> -1 \<longrightarrow>
            fields' st ! y ! x = int (mineNeighbours (fields' st) x y) \<and>
            0 \<le> fields' st ! y ! x \<and> fields' st ! y ! x \<le> 8)"
proof -
  from generated_board [OF assms(1,2,3,5,6)] obtain M where
    rep: "represents width height (fields' st) M" and
    inb: "\<forall>c\<in>M. fst c < width \<and> snd c < height" and
    cnt: "int (countMines (fields' st)) = mc"
    by blast
  have "shape width height (fields' st)" using rep by (simp add: represents_def)
  moreover have "\<forall>y<height. \<forall>x<width. fields' st ! y ! x \<noteq> -1 \<longrightarrow>
            fields' st ! y ! x = int (mineNeighbours (fields' st) x y) \<and>
            0 \<le> fields' st ! y ! x \<and> fields' st ! y ! x \<le> 8"
    using represents_counts [OF rep inb] by blast
  ultimately show ?thesis using cnt by blast
qed

theorem board_generation_correct_witness:
  "initGameState (\<lambda>k. k mod 6) 3 2 2 =
     Some \<lparr>minesCount = 2, minesLeft = 2, isGameOver = False, fieldsLeft = 4,
           fields' = [[-1, -1, 1], [2, 2, 1]], timerInterval = False\<rparr> \<and>
   countMines [[-1, -1, 1], [2, 2, 1]] = 2 \<and>
   mineNeighbours [[-1, -1, 1], [2, 2, 1]] 0 1 = 2 \<and>
   mineNeighbours [[-1, -1, 1], [2, 2, 1]] 2 0 = 1"
proof -
  let ?st = "\<lparr>minesCount = 2, minesLeft = 2, isGameOver = False, fieldsLeft = 4,
           fields' = [[-1, -1, 1], [2, 2, 1]], timerInterval = False\<rparr>"
  have run: "initGameState (\<lambda>k. k mod 6) 3 2 2 = Some ?st" by code_simp
  have dr: "\<forall>k. (\<lambda>k. k mod 6) k < 3 * (2::nat)" by simp
  have "shape 3 2 (fields' ?st) \<and> int (countMines (fields' ?st)) = 2 \<and>
         (\<forall>y<2. \<forall>x<3. fields' ?st ! y ! x \<noteq> -1 \<longrightarrow>
            fields' ?st ! y ! x = int (mineNeighbours (fields' ?st) x y) \<and>
            0 \<le> fields' ?st ! y ! x \<and> fields' ?st ! y ! x \<le> 8)"
    using board_generation_correct [of 3 2 2 "\<lambda>k. k mod 6" ?st, OF _ _ _ _ dr run] by simp
  then have "int (countMines [[-1, -1, 1], [2, 2, 1]]) = 2"
    and "[[-1, -1, 1], [2, 2, 1]] ! 1 ! 0 = int (mineNeighbours [[-1, -1, 1], [2, 2, 1]] 0 1)"
    and "[[-1, -1, 1], [2, 2, 1]] ! 0 ! 2 = int (mineNeighbours [[-1, -1, 1], [2, 2, 1]] 2 0)"
    by simp_all
  then show ?thesis using run by simp
qed

text \<open>
  Claim C8.  For a fixed set of chosen mine indices, placing the mines (mark the cell,
  increment its non-mine neighbours) in any order over that set gives the same grid.
\<close>

theorem placement_order_independent:
  assumes "0 < width" "distinct is" "distinct js" "set is = set js"
    and "\<forall>i\<in>set is. i < width * height"
  shows "placeMines width (replicate height (replicate width 0)) is =
         placeMines width (replicate height (replicate width 0)) js"
proof -
  have "represents width height (placeMines width (replicate height (replicate width 0)) is)
          (cellOf width ` set is)"
    using placeMines_board [OF assms(1,2,5)] .
  moreover have "represents width height (placeMines width (replicate height (replicate width 0)) js)
          (cellOf width ` set is)"
    using placeMines_board [OF assms(1,3)] assms(4,5) by simp
  ultimately show ?thesis by (rule represents_unique)
qed

theorem placement_order_independent_witness:
  "placeMines 3 (replicate 3 (replicate 3 0)) [0, 4, 5] = [[-1, 3, 2], [2, -1, -1], [1, 2, 2]] \<and>
   placeMines 3 (replicate 3 (replicate 3 0)) [5, 0, 4] = [[-1, 3, 2], [2, -1, -1], [1, 2, 2]]"
proof -
  have "placeMines 3 (replicate 3 (replicate 3 0)) [0, 4, 5] =
        placeMines 3 (replicate 3 (replicate 3 0)) [5, 0, 4]"
    by (rule placement_order_independent [of 3 "[0, 4, 5]" "[5, 0, 4]" 3]) auto
  moreover have "placeMines 3 (replicate 3 (replicate 3 0)) [0, 4, 5] =
        [[-1, 3, 2], [2, -1, -1], [1, 2, 2]]"
    by code_simp
  ultimately show ?thesis by simp
qed

subsection \<open>Termination of the sampling loop\<close>

lemma drawIndices_unfold_done:
  "\<not> int (length acc) < mc \<Longrightarrow> drawIndices draws mc k acc = Some acc"
  by (subst drawIndices.simps) simp

lemma drawIndices_unfold_step:
  "int (length acc) < mc \<Longrightarrow> drawIndices draws mc k acc =
     drawIndices draws mc (Suc k) (if draws k \<in> set acc then acc else acc @ [draws k])"
  by (subst drawIndices.simps) simp

lemma drawIndices_terminates:
  assumes "set acc = draws ` {..<k}" "distinct acc" "k \<le> n"
    and "mc \<le> int (card (draws ` {..<n}))"
  shows "\<exists>r. drawIndices draws mc k acc = Some r"
  using assms(1,2,3)
proof (induction "n - k" arbitrary: k acc)
  case 0
  then have "k = n" by simp
  have "length acc = card (set acc)" using "0.prems"(2) by (simp add: distinct_card)
  also have "\<dots> = card (draws ` {..<n})" unfolding "0.prems"(1) \<open>k = n\<close> ..
  finally have "\<not> int (length acc) < mc" using assms(4) by simp
  then show ?case by (simp add: drawIndices_unfold_done)
next
  case (Suc d)
  show ?case
  proof (cases "int (length acc) < mc")
    case False
    then show ?thesis by (simp add: drawIndices_unfold_done)
  next
    case True
    let ?acc = "if draws k \<in> set acc then acc else acc @ [draws k]"
    have 1: "set ?acc = draws ` {..<Suc k}"
      unfolding lessThan_Suc image_insert using Suc.prems(1) by auto
    have 2: "distinct ?acc" using Suc.prems(2) by simp
    have 3: "Suc k \<le> n" "d = n - Suc k" using Suc.hyps(2) by simp_all
    have "\<exists>r. drawIndices draws mc (Suc k) ?acc = Some r"
      using Suc.hyps(1) [OF 3(2) 1 2 3(1)] .
    then show ?thesis unfolding drawIndices_unfold_step [OF True] .
  qed
qed

lemma range_prefix:
  fixes draws :: "nat \<Rightarrow> nat"
  assumes "finite (range draws)"
  shows "\<exists>n. draws ` {..<n} = range draws"
proof -
  from finite_subset_image [OF assms subset_refl]
  obtain K where K: "finite K" "range draws = draws ` K" by blast
  have "K \<subseteq> {..<Suc (Max K)}"
  proof
    fix k assume "k \<in> K"
    then have "k \<le> Max K" using K(1) by simp
    then show "k \<in> {..<Suc (Max K)}" by simp
  qed
  then have "draws ` K \<subseteq> draws ` {..<Suc (Max K)}" by (rule image_mono)
  moreover have "draws ` {..<Suc (Max K)} \<subseteq> range draws" by (rule image_mono) simp
  ultimately have "draws ` {..<Suc (Max K)} = range draws" unfolding K(2) [symmetric] by (rule antisym [rotated])
  then show ?thesis ..
qed

lemma initGameState_terminates:
  assumes "\<forall>k. draws k < width * height" "mc \<le> int (card (range draws))"
  shows "\<exists>st. initGameState draws width height mc = Some st"
proof -
  have "range draws \<subseteq> {..<width * height}" using assms(1) by auto
  then have "finite (range draws)" by (rule finite_subset) simp
  then obtain n where n: "draws ` {..<n} = range draws" using range_prefix by blast
  have "\<exists>r. drawIndices draws mc 0 [] = Some r"
    by (rule drawIndices_terminates [where n = n]) (use n assms(2) in simp_all)
  then show ?thesis by (auto simp: initGameState_def insertMines_def)
qed

lemma initGameState_needs_distinct:
  assumes h: "0 < height" and mc: "0 \<le> mc" and dr: "\<forall>k. draws k < width * height"
    and st: "initGameState draws width height mc = Some st"
  shows "mc \<le> int (card (range draws))"
proof -
  from initGameState_fields [OF h st] obtain indices where
    d: "drawIndices draws mc 0 [] = Some indices"
    by blast
  have s: "distinct indices" "int (length indices) = mc" "set indices \<subseteq> range draws"
    using drawIndices_sound [OF d] mc by auto
  have "range draws \<subseteq> {..<width * height}" using dr by auto
  then have fin: "finite (range draws)" by (rule finite_subset) simp
  have "length indices = card (set indices)" using s(1) by (simp add: distinct_card)
  also have "\<dots> \<le> card (range draws)" using s(3) fin by (rule card_mono [rotated])
  finally show ?thesis using s(2) by simp
qed

lemma fair_range:
  assumes "\<forall>k. draws k < n" "\<forall>i<n. \<exists>k. draws k = i"
  shows "card (range draws) = (n::nat)"
proof -
  have "range draws = {..<n}"
  proof (intro set_eqI iffI)
    fix v assume "v \<in> range draws"
    then show "v \<in> {..<n}" using assms(1) by auto
  next
    fix v assume "v \<in> {..<n}"
    then obtain k where "draws k = v" using assms(2) by auto
    then show "v \<in> range draws" by auto
  qed
  then show ?thesis by simp
qed

text \<open>
  A source that produces every index below \<open>size\<close> at some draw, as a uniform source does
  with probability one, makes the loop end for every \<open>mineCount\<close> up to \<open>size\<close>.
\<close>

lemma fair_source_terminates:
  assumes "mc \<le> int width * int height"
    and "\<forall>k. draws k < width * height" and "\<forall>i < width * height. \<exists>k. draws k = i"
  shows "\<exists>st. initGameState draws width height mc = Some st"
proof -
  have "mc \<le> int (card (range draws))"
    using fair_range [OF assms(2,3)] assms(1) by simp
  then show ?thesis by (rule initGameState_terminates [OF assms(2)])
qed

text \<open>
  With a source that keeps returning index 0 and \<open>mineCount = 2\<close>, the loop never leaves the
  sets \<open>{}\<close> and \<open>{0}\<close>, so it returns from neither.
\<close>

lemma drawIndices_stuck:
  assumes "drawIndices (\<lambda>k. 0) 2 k acc = Some r"
  shows "acc \<noteq> [0] \<and> acc \<noteq> []"
proof -
  have "(\<lambda>k. 0) = (\<lambda>k::nat. 0::nat) \<longrightarrow> (2::int) = 2 \<longrightarrow> acc \<noteq> [0] \<and> acc \<noteq> []"
  proof (rule drawIndices.raw_induct [where P = "\<lambda>draws mc k acc r.
          draws = (\<lambda>k. 0) \<longrightarrow> mc = 2 \<longrightarrow> acc \<noteq> [0] \<and> acc \<noteq> []", OF _ assms],
         goal_cases)
    case (1 f draws mc k acc r)
    show ?case
    proof (intro impI)
      assume dr: "draws = (\<lambda>k. 0)" and mc: "mc = 2"
      have IH: "\<And>k' acc'. f draws mc k' acc' = Some r \<Longrightarrow> acc' \<noteq> [0]"
        using 1(1) dr mc by blast
      have "acc = [] \<or> acc = [0] \<Longrightarrow> f draws mc (Suc k) [0] = Some r"
        using 1(2) dr mc by auto
      then show "acc \<noteq> [0] \<and> acc \<noteq> []" using IH by blast
    qed
  qed
  then show ?thesis by simp
qed

text \<open>
  Claim C9, as amended.  The random source is the sequence of indices it produces, all
  below \<open>size\<close>.  For \<open>width > 0\<close>, \<open>height > 0\<close> and \<open>mineCount < width * height\<close>, board
  generation terminates exactly when the source produces \<open>mineCount\<close> distinct indices, and
  every grid it returns has the mine-count and neighbour-count properties.
\<close>

theorem board_generation_terminates:
  assumes "0 < width" "0 < height" "0 \<le> mc" "mc < int width * int height"
    and "\<forall>k. draws k < width * height"
  shows "((\<exists>st. initGameState draws width height mc = Some st) \<longleftrightarrow>
            mc \<le> int (card (range draws))) \<and>
         (\<forall>st. initGameState draws width height mc = Some st \<longrightarrow>
            int (countMines (fields' st)) = mc \<and>
            (\<forall>y<height. \<forall>x<width. fields' st ! y ! x \<noteq> -1 \<longrightarrow>
               fields' st ! y ! x = int (mineNeighbours (fields' st) x y)))"
proof (intro conjI iffI allI impI)
  assume "\<exists>st. initGameState draws width height mc = Some st"
  then obtain st where "initGameState draws width height mc = Some st" ..
  then show "mc \<le> int (card (range draws))"
    using initGameState_needs_distinct [OF assms(2,3,5)] by blast
next
  assume "mc \<le> int (card (range draws))"
  then show "\<exists>st. initGameState draws width height mc = Some st"
    by (rule initGameState_terminates [OF assms(5)])
next
  fix st assume st: "initGameState draws width height mc = Some st"
  from generated_board [OF assms(1,2,3,5) st] obtain M where
    rep: "represents width height (fields' st) M" and
    inb: "\<forall>c\<in>M. fst c < width \<and> snd c < height" and
    cnt: "int (countMines (fields' st)) = mc"
    by blast
  show "int (countMines (fields' st)) = mc" by (rule cnt)
  fix y x assume "y < height" "x < width" "fields' st ! y ! x \<noteq> -1"
  then show "fields' st ! y ! x = int (mineNeighbours (fields' st) x y)"
    using represents_counts [OF rep inb] by blast
qed

text \<open>
  On a \<open>4 \<times> 3\<close> board with 5 mines and a source that produces every index twice in a row
  (\<open>3, 3, 10, 10, 5, 5, 0, 0, 7, \<dots>\<close>), the loop redraws four times and ends with the
  indices \<open>3, 10, 5, 0, 7\<close>.
\<close>

theorem board_generation_terminates_witness:
  "drawIndices (\<lambda>k. (7 * (k div 2) + 3) mod 12) 5 0 [] = Some [3, 10, 5, 0, 7] \<and>
   (\<exists>st. initGameState (\<lambda>k. (7 * (k div 2) + 3) mod 12) 4 3 5 = Some st \<and>
         int (countMines (fields' st)) = 5) \<and>
   (5::int) \<le> int (card (range (\<lambda>k::nat. (7 * (k div 2) + 3) mod 12 :: nat)))"
proof -
  let ?d = "\<lambda>k::nat. (7 * (k div 2) + 3) mod 12 :: nat"
  have d: "\<forall>k. ?d k < 4 * (3::nat)" by simp
  have p: "0 < (4::nat)" "0 < (3::nat)" "(0::int) \<le> 5" "(5::int) < int 4 * int 3"
    by simp_all
  have i: "drawIndices ?d 5 0 [] = Some [3, 10, 5, 0, 7]" by code_simp
  have "initGameState ?d 4 3 5 \<noteq> None" by code_simp
  then obtain st where st: "initGameState ?d 4 3 5 = Some st" by blast
  note T = board_generation_terminates [of 4 3 5 ?d, OF p d]
  have "int (countMines (fields' st)) = 5" using T st by blast
  moreover have "(5::int) \<le> int (card (range ?d))" using T st by blast
  ultimately show ?thesis using i st by blast
qed

text \<open>
  Claim C9 as stated fails: nothing makes the loop end on every run.  On a \<open>3 \<times> 1\<close> board
  with 2 mines, a source that keeps returning index 0 never fills the set, and the loop
  runs forever.
\<close>

theorem board_generation_diverges: "initGameState (\<lambda>k. 0) 3 1 2 = None"
proof (cases "drawIndices (\<lambda>k. 0) 2 0 []")
  case None
  then show ?thesis by (simp add: initGameState_def insertMines_def)
next
  case (Some r)
  then show ?thesis using drawIndices_stuck by blast
qed

section \<open>The cascade\<close>

lemma revealField_eq:
  "revealField st b =
     (\<not> disabled b, st\<lparr>fieldsLeft := fieldsLeft st - decr (fields' st) b\<rparr>, revealed (fields' st) b)"
  by (simp add: revealField_def decr_def revealed_def Let_def)

lemma revealChild_eq:
  "revealChild g st k =
     (\<not> disabled (g ! k), g[k := revealed (fields' st) (g ! k)],
      st\<lparr>fieldsLeft := fieldsLeft st - decr (fields' st) (g ! k)\<rparr>)"
  by (simp add: revealChild_def revealField_eq)

lemma visitField_eq:
  "visitField index s =
     \<lparr>visited = insert index (visited s),
      children = (children s)[index := revealed (fields' (wstate s)) (children s ! index)],
      wstate = (wstate s)\<lparr>fieldsLeft := fieldsLeft (wstate s) -
                 decr (fields' (wstate s)) (children s ! index)\<rparr>\<rparr>"
  by (simp add: visitField_def revealChild_eq)

lemma walked_refl: "walked s s"
  by (simp add: walked_def)

lemma walked_fields: "walked s t \<Longrightarrow> fields' (wstate t) = fields' (wstate s)"
  by (simp add: walked_def)

lemma walked_visitField:
  assumes "index < length (children s)" "index \<notin> visited s"
  shows "walked s (visitField index s)"
proof -
  have "insert index (visited s) - visited s = {index}" using assms(2) by auto
  then show ?thesis using assms(1)
    by (simp add: walked_def visitField_eq nth_list_update subset_insertI)
qed

lemma walked_trans:
  assumes st: "walked s t" and tu: "walked t u"
  shows "walked s u"
proof -
  let ?fs = "fields' (wstate s)"
  let ?A = "visited t - visited s" and ?B = "visited u - visited t"
  have fs: "fields' (wstate t) = ?fs" using st by (rule walked_fields)
  have len: "length (children t) = length (children s)" using st by (simp add: walked_def)
  have sub: "visited s \<subseteq> visited t" "visited t \<subseteq> visited u"
    using st tu by (auto simp: walked_def)
  have AB: "visited u - visited s = ?A \<union> ?B" "?A \<inter> ?B = {}" using sub by auto
  have bA: "?A \<subseteq> {..<length (children s)}" and bB: "?B \<subseteq> {..<length (children s)}"
    using st tu len by (auto simp: walked_def)
  have fin: "finite ?A" "finite ?B" using bA bB by (auto intro: finite_subset)
  have ct: "\<And>k. k < length (children s) \<Longrightarrow> children t ! k =
        (if k \<in> ?A then revealed ?fs (children s ! k) else children s ! k)"
    using st by (simp add: walked_def)
  have cu: "\<And>k. k < length (children s) \<Longrightarrow> children u ! k =
        (if k \<in> ?B then revealed ?fs (children t ! k) else children t ! k)"
    using tu len fs by (simp add: walked_def)
  have same: "\<And>k. k \<in> ?B \<Longrightarrow> children t ! k = children s ! k"
    using ct bB by auto
  have sumB: "(\<Sum>k \<in> ?B. decr ?fs (children t ! k)) = (\<Sum>k \<in> ?B. decr ?fs (children s ! k))"
    by (rule sum.cong) (simp_all add: same)
  have sum: "(\<Sum>k \<in> visited u - visited s. decr ?fs (children s ! k)) =
        (\<Sum>k \<in> ?A. decr ?fs (children s ! k)) + (\<Sum>k \<in> ?B. decr ?fs (children s ! k))"
    unfolding AB(1) using fin AB(2) by (rule sum.union_disjoint)
  have wt: "wstate t = (wstate s)\<lparr>fieldsLeft := fieldsLeft (wstate s) -
        (\<Sum>k \<in> ?A. decr ?fs (children s ! k))\<rparr>"
    using st by (simp add: walked_def)
  have wu: "wstate u = (wstate t)\<lparr>fieldsLeft := fieldsLeft (wstate t) -
        (\<Sum>k \<in> ?B. decr ?fs (children t ! k))\<rparr>"
    using tu fs by (simp add: walked_def)
  have w: "wstate u = (wstate s)\<lparr>fieldsLeft := fieldsLeft (wstate s) -
        (\<Sum>k \<in> visited u - visited s. decr ?fs (children s ! k))\<rparr>"
    unfolding wu sumB sum unfolding wt by simp
  have c: "\<forall>k < length (children s). children u ! k =
        (if k \<in> visited u - visited s then revealed ?fs (children s ! k) else children s ! k)"
  proof (intro allI impI)
    fix k assume k: "k < length (children s)"
    show "children u ! k =
        (if k \<in> visited u - visited s then revealed ?fs (children s ! k) else children s ! k)"
      unfolding cu [OF k] ct [OF k] AB(1) using AB(2) by auto
  qed
  show ?thesis
    unfolding walked_def
    using sub bA bB len tu w c AB(1) by (auto simp: walked_def)
qed

lemma idx_div_mod:
  assumes "\<not> oob w h i j"
  shows "idx w i j div w = nat j" "idx w i j mod w = nat i" "idx w i j < w * h"
proof -
  have b: "0 \<le> i" "i < int w" "0 \<le> j" "j < int h" using assms by auto
  have e: "idx w i j = nat j * w + nat i"
    using b by (simp add: nat_add_distrib nat_mult_distrib)
  have x: "nat i < w" using b by simp
  show "idx w i j div w = nat j" unfolding e using x by simp
  show "idx w i j mod w = nat i" unfolding e using x by simp
  show "idx w i j < w * h" using index_bound [OF assms] .
qed

lemma visit_stop: "oob w h i j \<or> idx w i j \<in> visited s \<Longrightarrow> visit w h i j s = s"
  by (subst visit.simps) (auto simp: Let_def)

lemma visit_leaf:
  assumes "\<not> oob w h i j" "idx w i j \<notin> visited s"
    "fields' (wstate (visitField (idx w i j) s)) ! nat j ! nat i \<noteq> 0"
  shows "visit w h i j s = visitField (idx w i j) s"
  using assms by (subst visit.simps) (simp add: Let_def)

lemma visit_rec:
  assumes "\<not> oob w h i j" "idx w i j \<notin> visited s"
    "fields' (wstate (visitField (idx w i j) s)) ! nat j ! nat i = 0"
  shows "visit w h i j s =
         visit w h i (j + 1) (visit w h i (j - 1) (visit w h (i + 1) j
           (visit w h (i - 1) j (visitField (idx w i j) s))))"
  using assms by (subst visit.simps) (simp add: Let_def)

lemma visit_induct3 [consumes 0, case_names stop leaf rec]:
  assumes stop: "\<And>i j s. oob w h i j \<or> idx w i j \<in> visited s \<Longrightarrow> P i j s"
    and leaf: "\<And>i j s. \<not> oob w h i j \<Longrightarrow> idx w i j \<notin> visited s \<Longrightarrow>
        fields' (wstate (visitField (idx w i j) s)) ! nat j ! nat i \<noteq> 0 \<Longrightarrow> P i j s"
    and rec: "\<And>i j s. \<not> oob w h i j \<Longrightarrow> idx w i j \<notin> visited s \<Longrightarrow>
        fields' (wstate (visitField (idx w i j) s)) ! nat j ! nat i = 0 \<Longrightarrow>
        P (i - 1) j (visitField (idx w i j) s) \<Longrightarrow>
        P (i + 1) j (visit w h (i - 1) j (visitField (idx w i j) s)) \<Longrightarrow>
        P i (j - 1) (visit w h (i + 1) j (visit w h (i - 1) j (visitField (idx w i j) s))) \<Longrightarrow>
        P i (j + 1) (visit w h i (j - 1) (visit w h (i + 1) j
           (visit w h (i - 1) j (visitField (idx w i j) s)))) \<Longrightarrow>
        P i j s"
  shows "P i j s"
proof -
  have "w' = w \<Longrightarrow> h' = h \<Longrightarrow> P i j s" for w' h'
  proof (induction w' h' i j s rule: visit.induct)
    case (1 w' h' i j s)
    note eq = "1.prems"
    show ?case
    proof (cases "oob w h i j \<or> idx w i j \<in> visited s")
      case True
      then show ?thesis by (rule stop)
    next
      case False
      then have c: "\<not> oob w h i j" "idx w i j \<notin> visited s" by auto
      have c': "\<not> oob w' h' i j" "idx w' i j \<notin> visited s" using c eq by auto
      show ?thesis
      proof (cases "fields' (wstate (visitField (idx w i j) s)) ! nat j ! nat i = 0")
        case False
        with c show ?thesis by (rule leaf)
      next
        case True
        then have z: "\<not> fields' (wstate (visitField (idx w' i j) s)) ! nat j ! nat i \<noteq> 0"
          using eq by simp
        show ?thesis
        proof (rule rec [OF c True])
          show "P (i - 1) j (visitField (idx w i j) s)"
            using "1.IH"(1) [OF c'(1) refl c'(2) refl z eq] eq by simp
          show "P (i + 1) j (visit w h (i - 1) j (visitField (idx w i j) s))"
            using "1.IH"(2) [OF c'(1) refl c'(2) refl z eq] eq by simp
          show "P i (j - 1) (visit w h (i + 1) j (visit w h (i - 1) j (visitField (idx w i j) s)))"
            using "1.IH"(3) [OF c'(1) refl c'(2) refl z eq] eq by simp
          show "P i (j + 1) (visit w h i (j - 1) (visit w h (i + 1) j
             (visit w h (i - 1) j (visitField (idx w i j) s))))"
            using "1.IH"(4) [OF c'(1) refl c'(2) refl z eq] eq by simp
        qed
      qed
    qed
  qed
  then show ?thesis by simp
qed

lemma visit_walked:
  "length (children s) = w * h \<Longrightarrow> walked s (visit w h i j s)"
proof (induction i j s rule: visit_induct3 [where w = w and h = h])
  case (stop i j s)
  then show ?case by (simp add: visit_stop walked_refl)
next
  case (leaf i j s)
  have "idx w i j < length (children s)" using idx_div_mod(3) [OF leaf(1)] leaf(4) by simp
  then show ?case unfolding visit_leaf [OF leaf(1,2,3)] using leaf(2) by (rule walked_visitField)
next
  case (rec i j s)
  let ?s0 = "visitField (idx w i j) s"
  let ?a = "visit w h (i - 1) j ?s0"
  let ?b = "visit w h (i + 1) j ?a"
  let ?c = "visit w h i (j - 1) ?b"
  have "idx w i j < length (children s)" using idx_div_mod(3) [OF rec(1)] rec(8) by simp
  then have w0: "walked s ?s0" using rec(2) by (rule walked_visitField)
  then have l0: "length (children ?s0) = w * h" using rec(8) by (simp add: walked_def)
  have wa: "walked ?s0 ?a" using rec(4) [OF l0] .
  then have la: "length (children ?a) = w * h" using l0 by (simp add: walked_def)
  have wb: "walked ?a ?b" using rec(5) [OF la] .
  then have lb: "length (children ?b) = w * h" using la by (simp add: walked_def)
  have wc: "walked ?b ?c" using rec(6) [OF lb] .
  then have lc: "length (children ?c) = w * h" using lb by (simp add: walked_def)
  have wd: "walked ?c (visit w h i (j + 1) ?c)" using rec(7) [OF lc] .
  show ?case unfolding visit_rec [OF rec(1,2,3)]
    using walked_trans [OF walked_trans [OF walked_trans [OF walked_trans [OF w0 wa] wb] wc] wd] .
qed

lemma zeroRegion_zero:
  assumes "valueAt w fs start = 0" "k \<in> zeroRegion w h fs start"
  shows "valueAt w fs k = 0"
  using assms(2,1) by (induction rule: zeroRegion.induct) auto

lemma zeroRegion_trans:
  assumes "k \<in> zeroRegion w h fs nb" "nb \<in> zeroRegion w h fs start"
  shows "k \<in> zeroRegion w h fs start"
  using assms by (induction rule: zeroRegion.induct) (auto intro: zeroRegion.step)

lemma cascade_mono:
  assumes "nb \<in> zeroRegion w h fs start"
  shows "cascadeSet w h fs nb \<subseteq> cascadeSet w h fs start"
  unfolding cascadeSet_def using zeroRegion_trans [OF _ assms] by blast

lemma cascade_start: "start \<in> cascadeSet w h fs start"
  by (simp add: cascadeSet_def zeroRegion.start)

lemma cascade_nb:
  assumes "adj4 w h start l"
  shows "l \<in> cascadeSet w h fs start"
proof (cases "valueAt w fs l = 0")
  case True
  then have "l \<in> zeroRegion w h fs start"
    using zeroRegion.step [OF zeroRegion.start assms] by simp
  then show ?thesis by (simp add: cascadeSet_def)
next
  case False
  then show ?thesis using assms zeroRegion.start [of start w h fs] by (auto simp: cascadeSet_def)
qed

lemma cascade_via_nb:
  assumes "adj4 w h start nb" "valueAt w fs nb = 0" "k \<in> cascadeSet w h fs nb"
  shows "k \<in> cascadeSet w h fs start"
proof -
  have "nb \<in> zeroRegion w h fs start"
    using zeroRegion.step [OF zeroRegion.start assms(1,2)] .
  then show ?thesis using cascade_mono assms(3) by blast
qed

lemma adj4_idx:
  assumes "\<not> oob w h i j" "\<not> oob w h i' j'"
  shows "adj4 w h (idx w i j) (idx w i' j') \<longleftrightarrow>
         (j = j' \<and> (i = i' + 1 \<or> i' = i + 1)) \<or> (i = i' \<and> (j = j' + 1 \<or> j' = j + 1))"
  unfolding adj4_def idx_div_mod [OF assms(1)] idx_div_mod [OF assms(2)]
  using assms idx_div_mod(3) [OF assms(1)] idx_div_mod(3) [OF assms(2)] by auto

lemma idx_of_nat:
  assumes "0 < w" "l < w * h"
  shows "\<not> oob w h (int (l mod w)) (int (l div w))" "idx w (int (l mod w)) (int (l div w)) = l"
proof -
  have "l div w < h" "l mod w < w" using cellOf_bounds [OF assms] by simp_all
  then show "\<not> oob w h (int (l mod w)) (int (l div w))" by simp
  have "int (l div w) * int w + int (l mod w) = int l"
    by (metis div_mult_mod_eq of_nat_add of_nat_mult)
  then show "idx w (int (l mod w)) (int (l div w)) = l" by simp
qed

lemma adj4_neighbours:
  assumes "\<not> oob w h i j" "adj4 w h (idx w i j) l"
  shows "(\<not> oob w h (i - 1) j \<and> l = idx w (i - 1) j) \<or>
         (\<not> oob w h (i + 1) j \<and> l = idx w (i + 1) j) \<or>
         (\<not> oob w h i (j - 1) \<and> l = idx w i (j - 1)) \<or>
         (\<not> oob w h i (j + 1) \<and> l = idx w i (j + 1))"
proof -
  have w: "0 < w" using assms(1) by auto
  have l: "l < w * h" using assms(2) by (simp add: adj4_def)
  let ?i' = "int (l mod w)" and ?j' = "int (l div w)"
  note n = idx_of_nat [OF w l]
  have "adj4 w h (idx w i j) (idx w ?i' ?j')" using assms(2) n(2) by simp
  then have "(j = ?j' \<and> (i = ?i' + 1 \<or> ?i' = i + 1)) \<or> (i = ?i' \<and> (j = ?j' + 1 \<or> ?j' = j + 1))"
    using adj4_idx [OF assms(1) n(1)] by simp
  then consider "j = ?j'" "?i' = i - 1" | "j = ?j'" "?i' = i + 1"
    | "i = ?i'" "?j' = j - 1" | "i = ?i'" "?j' = j + 1"
    by fastforce
  then show ?thesis
  proof cases
    case 1
    then have "\<not> oob w h (i - 1) j \<and> l = idx w (i - 1) j" using n by metis
    then show ?thesis by blast
  next
    case 2
    then have "\<not> oob w h (i + 1) j \<and> l = idx w (i + 1) j" using n by metis
    then show ?thesis by blast
  next
    case 3
    then have "\<not> oob w h i (j - 1) \<and> l = idx w i (j - 1)" using n by metis
    then show ?thesis by blast
  next
    case 4
    then have "\<not> oob w h i (j + 1) \<and> l = idx w i (j + 1)" using n by metis
    then show ?thesis by blast
  qed
qed

lemma closedAt_mono: "closedAt w h fs V k \<Longrightarrow> V \<subseteq> V' \<Longrightarrow> closedAt w h fs V' k"
  by (auto simp: closedAt_def)

lemma visitField_fields: "fields' (wstate (visitField k s)) = fields' (wstate s)"
  by (simp add: visitField_eq)

lemma sub_call:
  assumes c: "\<not> oob w h i j" and z: "valueAt w fs (idx w i j) = 0"
    and nb: "(j' = j \<and> (i' = i - 1 \<or> i' = i + 1)) \<or> (i' = i \<and> (j' = j - 1 \<or> j' = j + 1))"
    and fs: "fields' (wstate u) = fs"
    and sub: "visited u \<subseteq> visited (visit w h i' j' u)"
    and post: "visitPost w h i' j' u (visit w h i' j' u)"
    and R: "\<forall>k \<in> visited u - V0. closedAt w h fs (visited u) k \<and> k \<in> cascadeSet w h fs (idx w i j)"
  shows "\<forall>k \<in> visited (visit w h i' j' u) - V0.
           closedAt w h fs (visited (visit w h i' j' u)) k \<and> k \<in> cascadeSet w h fs (idx w i j)"
proof
  let ?t = "visit w h i' j' u"
  fix k assume k: "k \<in> visited ?t - V0"
  show "closedAt w h fs (visited ?t) k \<and> k \<in> cascadeSet w h fs (idx w i j)"
  proof (cases "k \<in> visited u")
    case True
    then show ?thesis using R k closedAt_mono [OF _ sub] by blast
  next
    case False
    then have new: "k \<in> visited ?t - visited u" using k by simp
    then have "?t \<noteq> u" by auto
    then have inb: "\<not> oob w h i' j'" using visit_stop [where w = w and h = h and i = i' and j = j' and s = u] by blast
    have adj: "adj4 w h (idx w i j) (idx w i' j')"
      using adj4_idx [OF c inb] nb by auto
    have p: "closedAt w h fs (visited ?t) k"
      "k = idx w i' j' \<or> valueAt w fs (idx w i' j') = 0 \<and> k \<in> cascadeSet w h fs (idx w i' j')"
      using post new fs by (auto simp: visitPost_def)
    from p(2) have "k \<in> cascadeSet w h fs (idx w i j)"
    proof
      assume "k = idx w i' j'"
      then show ?thesis using cascade_nb [OF adj] by simp
    next
      assume "valueAt w fs (idx w i' j') = 0 \<and> k \<in> cascadeSet w h fs (idx w i' j')"
      then show ?thesis using cascade_via_nb [OF adj] by blast
    qed
    then show ?thesis using p(1) by simp
  qed
qed

lemma visit_graph:
  "length (children s) = w * h \<Longrightarrow> visitPost w h i j s (visit w h i j s)"
proof (induction i j s rule: visit_induct3 [where w = w and h = h])
  case (stop i j s)
  then show ?case by (auto simp: visit_stop visitPost_def)
next
  case (leaf i j s)
  have v: "valueAt w (fields' (wstate s)) (idx w i j) \<noteq> 0"
    using leaf(3) idx_div_mod(1,2) [OF leaf(1)] by (simp add: valueAt_def visitField_fields)
  have "visited (visitField (idx w i j) s) - visited s = {idx w i j}"
    using leaf(2) by (auto simp: visitField_visited)
  then show ?case
    unfolding visit_leaf [OF leaf(1,2,3)] visitPost_def
    using v by (simp add: visitField_visited closedAt_def)
next
  case (rec i j s)
  let ?fs = "fields' (wstate s)"
  let ?x = "idx w i j"
  let ?s0 = "visitField ?x s"
  let ?a = "visit w h (i - 1) j ?s0"
  let ?b = "visit w h (i + 1) j ?a"
  let ?c = "visit w h i (j - 1) ?b"
  let ?d = "visit w h i (j + 1) ?c"
  have z: "valueAt w ?fs ?x = 0"
    using rec(3) idx_div_mod(1,2) [OF rec(1)] by (simp add: valueAt_def visitField_fields)
  have "?x < length (children s)" using idx_div_mod(3) [OF rec(1)] rec(8) by simp
  then have w0: "walked s ?s0" using rec(2) by (rule walked_visitField)
  then have l0: "length (children ?s0) = w * h" using rec(8) by (simp add: walked_def)
  have wa: "walked ?s0 ?a" using visit_walked [OF l0] .
  then have la: "length (children ?a) = w * h" using l0 by (simp add: walked_def)
  have wb: "walked ?a ?b" using visit_walked [OF la] .
  then have lb: "length (children ?b) = w * h" using la by (simp add: walked_def)
  have wc: "walked ?b ?c" using visit_walked [OF lb] .
  then have lc: "length (children ?c) = w * h" using lb by (simp add: walked_def)
  have wd: "walked ?c ?d" using visit_walked [OF lc] .
  have f0: "fields' (wstate ?s0) = ?fs" using walked_fields [OF w0] .
  have fa: "fields' (wstate ?a) = ?fs" using walked_fields [OF wa] f0 by simp
  have fb: "fields' (wstate ?b) = ?fs" using walked_fields [OF wb] fa by simp
  have fc: "fields' (wstate ?c) = ?fs" using walked_fields [OF wc] fb by simp
  have sa: "visited ?s0 \<subseteq> visited ?a" using wa by (simp add: walked_def)
  have sb: "visited ?a \<subseteq> visited ?b" using wb by (simp add: walked_def)
  have sc: "visited ?b \<subseteq> visited ?c" using wc by (simp add: walked_def)
  have sd: "visited ?c \<subseteq> visited ?d" using wd by (simp add: walked_def)
  have v0: "visited ?s0 = insert ?x (visited s)" by (rule visitField_visited)
  note pa = rec(4) [OF l0] and pb = rec(5) [OF la] and pc = rec(6) [OF lb] and pd = rec(7) [OF lc]
  have R0: "\<forall>k \<in> visited ?s0 - visited ?s0.
      closedAt w h ?fs (visited ?s0) k \<and> k \<in> cascadeSet w h ?fs ?x" by simp
  have Ra: "\<forall>k \<in> visited ?a - visited ?s0.
      closedAt w h ?fs (visited ?a) k \<and> k \<in> cascadeSet w h ?fs ?x"
    by (rule sub_call [OF rec(1) z _ f0 sa pa R0]) simp
  have Rb: "\<forall>k \<in> visited ?b - visited ?s0.
      closedAt w h ?fs (visited ?b) k \<and> k \<in> cascadeSet w h ?fs ?x"
    by (rule sub_call [OF rec(1) z _ fa sb pb Ra]) simp
  have Rc: "\<forall>k \<in> visited ?c - visited ?s0.
      closedAt w h ?fs (visited ?c) k \<and> k \<in> cascadeSet w h ?fs ?x"
    by (rule sub_call [OF rec(1) z _ fb sc pc Rb]) simp
  have Rd: "\<forall>k \<in> visited ?d - visited ?s0.
      closedAt w h ?fs (visited ?d) k \<and> k \<in> cascadeSet w h ?fs ?x"
    by (rule sub_call [OF rec(1) z _ fc sd pd Rc]) simp
  have ma: "\<not> oob w h (i - 1) j \<Longrightarrow> idx w (i - 1) j \<in> visited ?d"
    using pa sb sc sd by (auto simp: visitPost_def)
  have mb: "\<not> oob w h (i + 1) j \<Longrightarrow> idx w (i + 1) j \<in> visited ?d"
    using pb sc sd by (auto simp: visitPost_def)
  have mc: "\<not> oob w h i (j - 1) \<Longrightarrow> idx w i (j - 1) \<in> visited ?d"
    using pc sd by (auto simp: visitPost_def)
  have md: "\<not> oob w h i (j + 1) \<Longrightarrow> idx w i (j + 1) \<in> visited ?d"
    using pd by (auto simp: visitPost_def)
  have cx: "closedAt w h ?fs (visited ?d) ?x"
    unfolding closedAt_def
  proof (intro impI allI)
    fix l assume "adj4 w h ?x l"
    from adj4_neighbours [OF rec(1) this] show "l \<in> visited ?d"
      using ma mb mc md by blast
  qed
  have xin: "?x \<in> visited ?d" using v0 sa sb sc sd by auto
  show ?case
    unfolding visit_rec [OF rec(1,2,3)] visitPost_def
  proof (intro conjI impI ballI)
    show "?x \<in> visited ?d" by (rule xin)
  next
    fix k assume "k \<in> visited ?d - visited s"
    then have "k = ?x \<or> k \<in> visited ?d - visited ?s0" using v0 by auto
    then show "closedAt w h ?fs (visited ?d) k" using cx Rd by blast
  next
    fix k assume "k \<in> visited ?d - visited s"
    then have "k = ?x \<or> k \<in> visited ?d - visited ?s0" using v0 by auto
    then show "k = ?x \<or> valueAt w ?fs ?x = 0 \<and> k \<in> cascadeSet w h ?fs ?x"
      using z Rd by blast
  qed
qed

lemma visit_cascade:
  assumes len: "length g = w * h" and c: "\<not> oob w h i j"
    and z: "valueAt w (fields' st) (idx w i j) = 0"
  shows "visited (visit w h i j \<lparr>visited = {}, children = g, wstate = st\<rparr>) =
         cascadeSet w h (fields' st) (idx w i j)"
proof -
  let ?s = "\<lparr>visited = {}, children = g, wstate = st\<rparr>"
  let ?V = "visited (visit w h i j ?s)"
  let ?fs = "fields' st" and ?x = "idx w i j"
  have post: "visitPost w h i j ?s (visit w h i j ?s)"
    by (rule visit_graph) (simp add: len)
  have x: "?x \<in> ?V" using post c by (simp add: visitPost_def)
  have cl: "\<And>k. k \<in> ?V \<Longrightarrow> closedAt w h ?fs ?V k"
    using post by (simp add: visitPost_def)
  have snd: "\<And>k. k \<in> ?V \<Longrightarrow> k \<in> cascadeSet w h ?fs ?x"
    using post cascade_start [of ?x w h ?fs] by (auto simp: visitPost_def)
  have reg: "k \<in> ?V" if "k \<in> zeroRegion w h ?fs ?x" for k
    using that
  proof (induction rule: zeroRegion.induct)
    case start
    show ?case by (rule x)
  next
    case (step k l)
    have "valueAt w ?fs k = 0" using zeroRegion_zero [OF z step(1)] .
    then show ?case using cl [OF step.IH] step(2) by (simp add: closedAt_def)
  qed
  have "cascadeSet w h ?fs ?x \<subseteq> ?V"
  proof
    fix l assume "l \<in> cascadeSet w h ?fs ?x"
    then consider "l \<in> zeroRegion w h ?fs ?x"
      | k where "k \<in> zeroRegion w h ?fs ?x" "adj4 w h k l"
      by (auto simp: cascadeSet_def)
    then show "l \<in> ?V"
    proof cases
      case 1
      then show ?thesis by (rule reg)
    next
      case 2
      have "valueAt w ?fs k = 0" using zeroRegion_zero [OF z 2(1)] .
      then show ?thesis using cl [OF reg [OF 2(1)]] 2(2) by (simp add: closedAt_def)
    qed
  qed
  then show ?thesis using snd by blast
qed

lemma revealEmptyArea_eq:
  assumes sh: "shape w h (fields' st)" and len: "length g = w * h"
    and x: "x < w" and y: "y < h" and z: "fields' st ! y ! x = 0"
  shows "\<exists>g'. revealEmptyArea g st (int x) (int y) =
           (g', st\<lparr>fieldsLeft := fieldsLeft st -
                 (\<Sum>l \<in> cascadeSet w h (fields' st) (y * w + x). decr (fields' st) (g ! l))\<rparr>) \<and>
           length g' = w * h \<and>
           cascadeSet w h (fields' st) (y * w + x) \<subseteq> {..<w * h} \<and>
           (\<forall>l < w * h. g' ! l =
              (if l \<in> cascadeSet w h (fields' st) (y * w + x) then revealed (fields' st) (g ! l)
               else g ! l))"
proof -
  let ?s = "\<lparr>visited = {}, children = g, wstate = st\<rparr>"
  let ?t = "visit w h (int x) (int y) ?s"
  let ?fs = "fields' st"
  have dims: "length ?fs = h" "length (?fs ! 0) = w" using sh y by (auto simp: shape_def)
  have c: "\<not> oob w h (int x) (int y)" using x y by simp
  have i: "idx w (int x) (int y) = y * w + x"
    by (simp add: nat_add_distrib nat_mult_distrib)
  have zv: "valueAt w ?fs (idx w (int x) (int y)) = 0"
    using z idx_div_mod(1,2) [OF c] by (simp add: valueAt_def)
  have V: "visited ?t = cascadeSet w h ?fs (y * w + x)"
    using visit_cascade [OF len c zv] i by simp
  have wk: "walked ?s ?t" by (rule visit_walked) (simp add: len)
  have r: "revealEmptyArea g st (int x) (int y) = (children ?t, wstate ?t)"
    by (simp add: revealEmptyArea_def dims Let_def)
  show ?thesis
    using wk unfolding r walked_def V [symmetric] by (simp add: len)
qed

lemma gameOver_fold:
  assumes "m \<le> length (grid v)"
  shows "fold (\<lambda>k (v', st').
             let b = grid v' ! k
             in if fields' st' ! dataY b ! dataX b = -1
                then (case revealChild (grid v') st' k of
                        (r, g', st'') \<Rightarrow> (v'\<lparr>grid := g'\<rparr>, st''))
                else (v', st'))
       [0..<m] (v, st) =
     (v\<lparr>grid := map (\<lambda>i. if i < m \<and> fields' st ! dataY (grid v ! i) ! dataX (grid v ! i) = -1
                          then revealed (fields' st) (grid v ! i) else grid v ! i)
                 [0..<length (grid v)]\<rparr>, st)"
  using assms
proof (induction m)
  case 0
  then show ?case by (simp add: map_nth)
next
  case (Suc m)
  let ?f = "\<lambda>m i. if i < m \<and> fields' st ! dataY (grid v ! i) ! dataX (grid v ! i) = -1
                          then revealed (fields' st) (grid v ! i) else grid v ! i"
  have m: "m < length (grid v)" using Suc.prems by simp
  have upd: "(map (?f m) [0..<length (grid v)])[m := revealed (fields' st) (grid v ! m)] =
             map (?f (Suc m)) [0..<length (grid v)]"
    if "fields' st ! dataY (grid v ! m) ! dataX (grid v ! m) = -1"
    using that m by (auto intro!: nth_equalityI simp: nth_list_update)
  have same: "map (?f m) [0..<length (grid v)] = map (?f (Suc m)) [0..<length (grid v)]"
    if "fields' st ! dataY (grid v ! m) ! dataX (grid v ! m) \<noteq> -1"
    using that by (auto simp: less_Suc_eq)
  have nth: "map (?f m) [0..<length (grid v)] ! m = grid v ! m" using m by simp
  show ?case
  proof (cases "fields' st ! dataY (grid v ! m) ! dataX (grid v ! m) = -1")
    case True
    then have d: "decr (fields' st) (grid v ! m) = 0" by (simp add: decr_def)
    show ?thesis
      using Suc.IH m True upd [OF True] nth d
      by (simp add: revealChild_eq Let_def)
  next
    case False
    then show ?thesis
      using Suc.IH m same [OF False] nth by (simp add: Let_def)
  qed
qed

lemma gameOver_eq:
  "gameOver v st =
     (v\<lparr>grid := map (\<lambda>b. if fields' st ! dataY b ! dataX b = -1
                           then revealed (fields' st) b else b) (grid v)\<rparr>,
      st\<lparr>isGameOver := True\<rparr>)"
proof -
  have m: "map (\<lambda>i. if i < length (grid v) \<and>
                     fields' st ! dataY (grid v ! i) ! dataX (grid v ! i) = -1
                  then revealed (fields' st) (grid v ! i) else grid v ! i) [0..<length (grid v)] =
        map (\<lambda>b. if fields' st ! dataY b ! dataX b = -1
                           then revealed (fields' st) b else b) (grid v)"
    by (auto intro!: nth_equalityI)
  have f: "fields' (st\<lparr>isGameOver := True\<rparr>) = fields' st" by simp
  note F = gameOver_fold [of "length (grid v)" v "st\<lparr>isGameOver := True\<rparr>", unfolded f m, OF le_refl]
  show ?thesis unfolding gameOver_def by (rule F)
qed

section \<open>A reveal request in closed form\<close>

lemma layout_value:
  "layout w h g \<Longrightarrow> l < w * h \<Longrightarrow> fs ! dataY (g ! l) ! dataX (g ! l) = valueAt w fs l"
  by (simp add: layout_def valueAt_def)

lemma revealed_data [simp]:
  "dataX (revealed fs b) = dataX b" "dataY (revealed fs b) = dataY b"
  by (simp_all add: revealed_def)

lemma revealed_disabled [simp]: "disabled (revealed fs b)"
  by (simp add: revealed_def)

lemma revealed_id: "disabled b \<Longrightarrow> revealed fs b = b"
  by (simp add: revealed_def)

lemma revealed_idem [simp]: "revealed fs (revealed fs b) = revealed fs b"
  by (simp add: revealed_id)

lemma gameOver_nth:
  assumes "layout w h (grid v)"
  shows "gameOver v st =
     (v\<lparr>grid := map (\<lambda>l. if valueAt w (fields' st) l = -1
                           then revealed (fields' st) (grid v ! l) else grid v ! l) [0..<w * h]\<rparr>,
      st\<lparr>isGameOver := True\<rparr>)"
proof -
  have len: "length (grid v) = w * h" using assms by (simp add: layout_def)
  have "map (\<lambda>b. if fields' st ! dataY b ! dataX b = -1
                           then revealed (fields' st) b else b) (grid v) =
        map (\<lambda>l. if valueAt w (fields' st) l = -1
                           then revealed (fields' st) (grid v ! l) else grid v ! l) [0..<w * h]"
    using len layout_value [OF assms] by (auto intro!: nth_equalityI)
  then show ?thesis by (simp add: gameOver_eq)
qed

lemma layout_map:
  assumes "layout w h g" "\<And>l. l < w * h \<Longrightarrow> dataX (f l) = dataX (g ! l) \<and> dataY (f l) = dataY (g ! l)"
  shows "layout w h (map f [0..<w * h])"
  using assms by (simp add: layout_def)

lemma map_upt_id: "length g = n \<Longrightarrow> map (\<lambda>l. g ! l) [0..<n] = g"
  by (auto intro!: nth_equalityI)

lemma finish_eq:
  assumes "layout w h g1" "fields' st1 = fs" "fieldsLeft st1 = left"
  shows "winCheck (v\<lparr>grid := g1, restart := r\<rparr>) st1 =
     (v\<lparr>grid := map (\<lambda>l. if left = 0 \<and> valueAt w fs l = -1
                            then revealed fs (g1 ! l) else g1 ! l) [0..<w * h],
        restart := (if left = 0 then Won else r)\<rparr>,
      st1\<lparr>isGameOver := (isGameOver st1 \<or> left = 0)\<rparr>)"
proof (cases "left = 0")
  case True
  have l: "layout w h (grid (v\<lparr>grid := g1, restart := r, restart := Won\<rparr>))"
    using assms(1) by simp
  have "gameOver (v\<lparr>grid := g1, restart := r, restart := Won\<rparr>) st1 =
        (v\<lparr>grid := map (\<lambda>l. if valueAt w fs l = -1
                            then revealed fs (g1 ! l) else g1 ! l) [0..<w * h],
           restart := Won\<rparr>, st1\<lparr>isGameOver := True\<rparr>)"
    unfolding gameOver_nth [OF l] assms(2) by simp
  then show ?thesis using True assms(3) by (simp add: winCheck_def)
next
  case False
  have "length g1 = w * h" using assms(1) by (simp add: layout_def)
  then have "map (\<lambda>l. g1 ! l) [0..<w * h] = g1" by (rule map_upt_id)
  then show ?thesis using False assms(3) by (simp add: winCheck_def)
qed

lemma handleFieldReveal_unfold:
  assumes "layout w h (grid v)" "k < w * h" "\<not> flagged (grid v ! k)"
  shows "handleFieldReveal v st k =
     (case (if valueAt w (fields' st) k = -1 then
              (if disabled (grid v ! k) then (v, st)
               else gameOver (v\<lparr>grid := (grid v)[k := (revealed (fields' st) (grid v ! k))\<lparr>exploded := True\<rparr>],
                               restart := Lost\<rparr>) st)
            else if valueAt w (fields' st) k = 0 then
              (case revealEmptyArea (grid v) st (int (k mod w)) (int (k div w)) of
                 (g', st') \<Rightarrow> (v\<lparr>grid := g'\<rparr>, st'))
            else (v\<lparr>grid := (grid v)[k := revealed (fields' st) (grid v ! k)]\<rparr>,
                  st\<lparr>fieldsLeft := fieldsLeft st - decr (fields' st) (grid v ! k)\<rparr>))
      of (v1, st1) \<Rightarrow> winCheck v1 st1)"
proof -
  have len: "k < length (grid v)" using assms by (simp add: layout_def)
  have xy: "dataX (grid v ! k) = k mod w" "dataY (grid v ! k) = k div w"
    using assms by (simp_all add: layout_def)
  have val: "fields' st ! (k div w) ! (k mod w) = valueAt w (fields' st) k"
    by (simp add: valueAt_def)
  have d0: "valueAt w (fields' st) k = -1 \<Longrightarrow> decr (fields' st) (grid v ! k) = 0"
    using xy by (simp add: decr_def valueAt_def)
  show ?thesis
    unfolding handleFieldReveal_def Let_def xy val revealChild_eq winCheck_def
    using assms(3) len d0 by (simp add: revealed_id)
qed

lemma decr_mine:
  "layout w h g \<Longrightarrow> l < w * h \<Longrightarrow> valueAt w fs l = -1 \<Longrightarrow> decr fs (g ! l) = 0"
  using layout_value [of w h g l fs] by (simp add: decr_def)

lemma sum_decr_mines:
  assumes "layout w h g"
  shows "(\<Sum>l \<in> mines w h fs. decr fs (g ! l)) = 0"
  by (rule sum.neutral) (simp add: mines_def decr_mine [OF assms])

lemma handleFieldReveal_eq:
  assumes s: "session w h v st" and k: "k < w * h" and nf: "\<not> flagged (grid v ! k)"
    and left: "left = fieldsLeft st -
        (\<Sum>l \<in> revealSet w h (fields' st) (grid v) k. decr (fields' st) (grid v ! l))"
    and lost: "lost \<longleftrightarrow> valueAt w (fields' st) k = -1 \<and> \<not> disabled (grid v ! k)"
  shows "handleFieldReveal v st k =
     (v\<lparr>grid := map (afterReveal w h (fields' st) (grid v) k left) [0..<w * h],
        restart := (if left = 0 then Won else if lost then Lost else restart v)\<rparr>,
      st\<lparr>fieldsLeft := left, isGameOver := (isGameOver st \<or> lost \<or> left = 0)\<rparr>)"
proof -
  define fs where "fs = fields' st"
  define g where "g = grid v"
  let ?R = "revealSet w h fs g k"
  have lay: "layout w h g" and sh: "shape w h fs" and w: "0 < w"
    using s by (simp_all add: session_def fs_def g_def)
  have len: "length g = w * h" using lay by (simp add: layout_def)
  have left': "left = fieldsLeft st - (\<Sum>l \<in> ?R. decr fs (g ! l))"
    using left by (simp add: fs_def g_def)
  have lost': "lost \<longleftrightarrow> valueAt w fs k = -1 \<and> \<not> disabled (g ! k)"
    using lost by (simp add: fs_def g_def)
  have vg: "v\<lparr>grid := g\<rparr> = v" by (simp add: g_def)
  note U = handleFieldReveal_unfold [OF lay [unfolded g_def] k nf, of st, folded fs_def g_def]
  have goal: "handleFieldReveal v st k =
     (v\<lparr>grid := map (afterReveal w h fs g k left) [0..<w * h],
        restart := (if left = 0 then Won else if lost then Lost else restart v)\<rparr>,
      st\<lparr>fieldsLeft := left, isGameOver := (isGameOver st \<or> lost \<or> left = 0)\<rparr>)"
  proof -
    consider (A) "valueAt w fs k = -1" "disabled (g ! k)"
      | (B) "valueAt w fs k = -1" "\<not> disabled (g ! k)"
      | (C) "valueAt w fs k = 0"
      | (D) "valueAt w fs k \<noteq> -1" "valueAt w fs k \<noteq> 0"
      by blast
    then show ?thesis
    proof cases
      case A
      have R: "?R = {}" using A by (simp add: revealSet_def)
      have l: "fieldsLeft st = left" unfolding left' R by simp
      have nl: "\<not> lost" using A lost' by simp
      have "handleFieldReveal v st k = winCheck (v\<lparr>grid := g, restart := restart v\<rparr>) st"
        unfolding U using A by (simp add: g_def)
      also have "\<dots> = (v\<lparr>grid := map (\<lambda>l. if left = 0 \<and> valueAt w fs l = -1
                            then revealed fs (g ! l) else g ! l) [0..<w * h],
             restart := (if left = 0 then Won else restart v)\<rparr>,
          st\<lparr>isGameOver := (isGameOver st \<or> left = 0)\<rparr>)"
        by (rule finish_eq [OF lay fs_def [symmetric] l])
      also have "map (\<lambda>l. if left = 0 \<and> valueAt w fs l = -1
                            then revealed fs (g ! l) else g ! l) [0..<w * h] =
                 map (afterReveal w h fs g k left) [0..<w * h]"
        using A by (simp add: afterReveal_def R)
      finally show ?thesis using nl l by simp
    next
      case B
      have R: "?R = mines w h fs" using B by (simp add: revealSet_def)
      have l: "fieldsLeft st = left" unfolding left' R sum_decr_mines [OF lay] by simp
      have il: "lost" using B lost' by simp
      let ?g1 = "g[k := (revealed fs (g ! k))\<lparr>exploded := True\<rparr>]"
      let ?v1 = "v\<lparr>grid := ?g1, restart := Lost\<rparr>"
      have lay1: "layout w h (grid ?v1)" using lay k by (simp add: layout_def nth_list_update)
      let ?g2 = "map (\<lambda>l. if valueAt w fs l = -1 then revealed fs (?g1 ! l) else ?g1 ! l) [0..<w * h]"
      have go: "gameOver ?v1 st = (v\<lparr>grid := ?g2, restart := Lost\<rparr>, st\<lparr>isGameOver := True\<rparr>)"
        unfolding gameOver_nth [OF lay1] by (simp add: fs_def)
      have lay2: "layout w h ?g2" using lay1 by (simp add: layout_def)
      have "handleFieldReveal v st k =
            winCheck (v\<lparr>grid := ?g2, restart := Lost\<rparr>) (st\<lparr>isGameOver := True\<rparr>)"
        unfolding U using B go by simp
      also have "\<dots> = (v\<lparr>grid := map (\<lambda>l. if left = 0 \<and> valueAt w fs l = -1
                            then revealed fs (?g2 ! l) else ?g2 ! l) [0..<w * h],
             restart := (if left = 0 then Won else Lost)\<rparr>,
          st\<lparr>isGameOver := True, isGameOver := (isGameOver (st\<lparr>isGameOver := True\<rparr>) \<or> left = 0)\<rparr>)"
        by (rule finish_eq [OF lay2]) (simp_all add: fs_def l)
      also have "map (\<lambda>l. if left = 0 \<and> valueAt w fs l = -1
                            then revealed fs (?g2 ! l) else ?g2 ! l) [0..<w * h] =
                 map (afterReveal w h fs g k left) [0..<w * h]"
        using B k len
        by (auto simp: afterReveal_def R mines_def nth_list_update revealed_id)
      finally show ?thesis using il l by simp
    next
      case C
      have R: "?R = cascadeSet w h fs k" using C by (simp add: revealSet_def)
      have nl: "\<not> lost" using C lost' by simp
      have b: "k mod w < w" "k div w < h" using cellOf_bounds [OF w k] by simp_all
      have z: "fs ! (k div w) ! (k mod w) = 0" using C by (simp add: valueAt_def)
      have kk: "k div w * w + k mod w = k" by simp
      from revealEmptyArea_eq [OF sh [unfolded fs_def] len b z [unfolded fs_def], unfolded kk,
          folded fs_def]
      obtain g' where r: "revealEmptyArea g st (int (k mod w)) (int (k div w)) =
             (g', st\<lparr>fieldsLeft := fieldsLeft st - (\<Sum>l \<in> cascadeSet w h fs k. decr fs (g ! l))\<rparr>)"
        and lg: "length g' = w * h"
        and g': "\<forall>l < w * h. g' ! l =
                (if l \<in> cascadeSet w h fs k then revealed fs (g ! l) else g ! l)"
        by blast
      have lay1: "layout w h g'" using lay lg g' by (simp add: layout_def)
      have "handleFieldReveal v st k =
            winCheck (v\<lparr>grid := g', restart := restart v\<rparr>) (st\<lparr>fieldsLeft := left\<rparr>)"
        unfolding U using C r by (simp add: left' R)
      also have "\<dots> = (v\<lparr>grid := map (\<lambda>l. if left = 0 \<and> valueAt w fs l = -1
                            then revealed fs (g' ! l) else g' ! l) [0..<w * h],
             restart := (if left = 0 then Won else restart v)\<rparr>,
          st\<lparr>fieldsLeft := left, isGameOver := (isGameOver (st\<lparr>fieldsLeft := left\<rparr>) \<or> left = 0)\<rparr>)"
        by (rule finish_eq [OF lay1]) (simp_all add: fs_def)
      also have "map (\<lambda>l. if left = 0 \<and> valueAt w fs l = -1
                            then revealed fs (g' ! l) else g' ! l) [0..<w * h] =
                 map (afterReveal w h fs g k left) [0..<w * h]"
        using C g' by (auto simp: afterReveal_def R)
      finally show ?thesis using nl by simp
    next
      case D
      have R: "?R = {k}" using D by (simp add: revealSet_def)
      have l: "left = fieldsLeft st - decr fs (g ! k)" unfolding left' R by simp
      have nl: "\<not> lost" using D lost' by simp
      let ?g1 = "g[k := revealed fs (g ! k)]"
      have lay1: "layout w h ?g1" using lay k by (simp add: layout_def nth_list_update)
      have "handleFieldReveal v st k =
            winCheck (v\<lparr>grid := ?g1, restart := restart v\<rparr>) (st\<lparr>fieldsLeft := left\<rparr>)"
        unfolding U using D by (simp add: l)
      also have "\<dots> = (v\<lparr>grid := map (\<lambda>l. if left = 0 \<and> valueAt w fs l = -1
                            then revealed fs (?g1 ! l) else ?g1 ! l) [0..<w * h],
             restart := (if left = 0 then Won else restart v)\<rparr>,
          st\<lparr>fieldsLeft := left, isGameOver := (isGameOver (st\<lparr>fieldsLeft := left\<rparr>) \<or> left = 0)\<rparr>)"
        by (rule finish_eq [OF lay1]) (simp_all add: fs_def)
      also have "map (\<lambda>l. if left = 0 \<and> valueAt w fs l = -1
                            then revealed fs (?g1 ! l) else ?g1 ! l) [0..<w * h] =
                 map (afterReveal w h fs g k left) [0..<w * h]"
        using D k len by (auto simp: afterReveal_def R nth_list_update)
      finally show ?thesis using nl by simp
    qed
  qed
  then show ?thesis unfolding fs_def g_def .
qed

section \<open>Sessions\<close>

lemma length_concat_rows:
  "length (concat (map (\<lambda>y. map (f y) [0..<w]) [0..<h])) = w * h"
  by (induction h) simp_all

lemma nth_concat_rows:
  "k < w * h \<Longrightarrow> concat (map (\<lambda>y. map (f y) [0..<w]) [0..<h]) ! k = f (k div w) (k mod w)"
proof (induction h)
  case 0
  then show ?case by simp
next
  case (Suc h)
  have w: "0 < w" using Suc.prems by (cases w) simp_all
  show ?case
  proof (cases "k < w * h")
    case True
    then show ?thesis using Suc.IH by (simp add: nth_append length_concat_rows)
  next
    case False
    then have ge: "w * h \<le> k" by simp
    have "k < Suc h * w" using Suc.prems by (simp add: mult.commute)
    then have "k div w < Suc h" by (rule less_mult_imp_div_less)
    moreover have "h \<le> k div w"
      using ge w by (simp add: less_eq_div_iff_mult_less_eq mult.commute)
    ultimately have d: "k div w = h" by simp
    have m: "k - w * h = k mod w" using d by (metis minus_mult_div_eq_mod)
    have "k mod w < w" using w by simp
    then show ?thesis using False d m by (simp add: nth_append length_concat_rows)
  qed
qed

lemma createFieldButtons_layout:
  assumes "shape w h (fields' st)" "0 < h"
  shows "layout w h (createFieldButtons st)"
proof -
  have dims: "length (fields' st) = h" "length (fields' st ! 0) = w"
    using assms by (auto simp: shape_def)
  show ?thesis
    unfolding layout_def createFieldButtons_def Let_def dims
    by (simp add: length_concat_rows nth_concat_rows)
qed

lemma newView_session:
  assumes "shape w h (fields' st)" "0 < w" "0 < h"
  shows "session w h (newView st) st"
    and "\<forall>k < w * h. \<not> disabled (grid (newView st) ! k) \<and> \<not> flagged (grid (newView st) ! k)"
    and "restart (newView st) = NoClass"
proof -
  note l = createFieldButtons_layout [OF assms(1,3)]
  have len: "length (createFieldButtons st) = w * h" using l by (simp add: layout_def)
  show "session w h (newView st) st"
    using assms l by (simp add: session_def newView_def initView_def layout_def)
  show "\<forall>k < w * h. \<not> disabled (grid (newView st) ! k) \<and> \<not> flagged (grid (newView st) ! k)"
    using len by (simp add: newView_def initView_def)
  show "restart (newView st) = NoClass" by (simp add: newView_def initView_def)
qed

subsection \<open>Flags\<close>

lemma handleFieldFlag_minesLeft:
  "minesLeft (snd (handleFieldFlag v st k)) =
     (if disabled (grid v ! k) then minesLeft st
      else if flagged (grid v ! k) then minesLeft st + 1 else minesLeft st - 1)"
  by (simp add: handleFieldFlag_def Let_def)

lemma handleFieldReveal_flagged:
  "flagged (grid v ! k) \<Longrightarrow> handleFieldReveal v st k = (v, st)"
  by (simp add: handleFieldReveal_def Let_def)

lemma handleFieldReveal_minesLeft:
  assumes "session w h v st" "k < w * h"
  shows "minesLeft (snd (handleFieldReveal v st k)) = minesLeft st"
proof (cases "flagged (grid v ! k)")
  case True
  then show ?thesis by (simp add: handleFieldReveal_flagged)
next
  case False
  show ?thesis unfolding handleFieldReveal_eq [OF assms False refl refl] by simp
qed

lemma afterReveal_changed:
  assumes "l \<noteq> k" "afterReveal w h fs g k left l \<noteq> g ! l"
  shows "l \<in> revealSet w h fs g k \<or> left = 0 \<and> valueAt w fs l = -1"
  using assms by (auto simp: afterReveal_def split: if_splits)

subsection \<open>Sessions stay well formed\<close>

lemma handleFieldFlag_session:
  assumes "session w h v st" "k < w * h"
  shows "session w h (fst (handleFieldFlag v st k)) (snd (handleFieldFlag v st k))"
  using assms
  by (auto simp: handleFieldFlag_def Let_def session_def layout_def nth_list_update)

lemma afterReveal_data:
  "dataX (afterReveal w h fs g k left l) = dataX (g ! l)"
  "dataY (afterReveal w h fs g k left l) = dataY (g ! l)"
  by (simp_all add: afterReveal_def)

lemma handleFieldReveal_session:
  assumes "session w h v st" "k < w * h"
  shows "session w h (fst (handleFieldReveal v st k)) (snd (handleFieldReveal v st k))"
proof (cases "flagged (grid v ! k)")
  case True
  then show ?thesis using assms(1) by (simp add: handleFieldReveal_flagged)
next
  case False
  show ?thesis
    unfolding handleFieldReveal_eq [OF assms False refl refl]
    using assms(1) by (simp add: session_def layout_def afterReveal_data)
qed

lemma ensureTimerStarted_session:
  "session w h v st \<Longrightarrow> session w h v (ensureTimerStarted st)"
  by (simp add: session_def ensureTimerStarted_def)

lemma mousedown_session:
  assumes "session w h v st" "validEvent w h ev"
  shows "session w h (fst (mousedown v st ev)) (snd (mousedown v st ev))"
proof (cases "target ev")
  case OtherElement
  then show ?thesis using assms(1) by (simp add: mousedown_def)
next
  case (Button k)
  then have k: "k < w * h" using assms(2) by (simp add: validEvent_def)
  note t = ensureTimerStarted_session [OF assms(1)]
  show ?thesis
    using Button assms(1) handleFieldFlag_session [OF t k] handleFieldReveal_session [OF t k]
    by (simp add: mousedown_def Let_def)
qed

lemma clicks_session:
  assumes "session w h (fst s) (snd s)" "\<forall>ev \<in> set evs. validEvent w h ev"
  shows "session w h (fst (clicks s evs)) (snd (clicks s evs))"
  using assms
proof (induction evs arbitrary: s)
  case Nil
  then show ?case by simp
next
  case (Cons ev evs)
  have "session w h (fst (mousedown (fst s) (snd s) ev)) (snd (mousedown (fst s) (snd s) ev))"
    using Cons.prems by (intro mousedown_session) simp_all
  then show ?case using Cons.IH Cons.prems(2) by simp
qed

lemma rowBoard_session: "session 5 1 (newView rowBoard) rowBoard"
  by (rule newView_session) (simp_all add: rowBoard_def shape_def)

lemma tinyBoard_session: "session 3 1 (newView tinyBoard) tinyBoard"
  by (rule newView_session) (simp_all add: tinyBoard_def shape_def)

lemma flagged_row_session:
  "session 5 1 (fst (clicks (newView rowBoard, rowBoard) [flagClick 1]))
     (snd (clicks (newView rowBoard, rowBoard) [flagClick 1]))"
proof (rule clicks_session)
  show "session 5 1 (fst (newView rowBoard, rowBoard)) (snd (newView rowBoard, rowBoard))"
    using rowBoard_session by simp
  show "\<forall>ev \<in> set [flagClick 1]. validEvent 5 1 ev"
    by (simp add: validEvent_def flagClick_def)
qed

section \<open>The game's rules\<close>

subsection \<open>After the end of the game\<close>

lemma clicks_over: "isGameOver (snd s) \<Longrightarrow> clicks s evs = s"
  by (induction evs) (simp_all add: mousedown_def)

text \<open>
  Claim C7.  Once \<open>isGameOver\<close> is true, a reveal or flag action at any coordinate leaves
  the whole session unchanged: the buttons, both counters and the outcome.
\<close>

theorem game_over_is_final:
  assumes "isGameOver st"
  shows "mousedown v st ev = (v, st) \<and> clicks (v, st) evs = (v, st)"
  using assms clicks_over [of "(v, st)" evs] by (simp add: mousedown_def)

theorem game_over_is_final_witness:
  "clicks
     (\<lparr>restart = Lost,
       grid = [\<lparr>dataX = 0, dataY = 0, disabled = True, flagged = False, exploded = True,
                dataValue = Some (-1)\<rparr>,
               \<lparr>dataX = 1, dataY = 0, disabled = False, flagged = False, exploded = False,
                dataValue = None\<rparr>]\<rparr>,
      \<lparr>minesCount = 1, minesLeft = 1, isGameOver = True, fieldsLeft = 1,
       fields' = [[-1, 1]], timerInterval = True\<rparr>)
     [flagClick 1, revealClick 1, revealClick 0] =
   (\<lparr>restart = Lost,
     grid = [\<lparr>dataX = 0, dataY = 0, disabled = True, flagged = False, exploded = True,
              dataValue = Some (-1)\<rparr>,
             \<lparr>dataX = 1, dataY = 0, disabled = False, flagged = False, exploded = False,
              dataValue = None\<rparr>]\<rparr>,
    \<lparr>minesCount = 1, minesLeft = 1, isGameOver = True, fieldsLeft = 1,
     fields' = [[-1, 1]], timerInterval = True\<rparr>)"
proof -
  have o: "isGameOver \<lparr>minesCount = 1, minesLeft = 1, isGameOver = True, fieldsLeft = 1,
       fields' = [[-1, 1]], timerInterval = True\<rparr>"
    by simp
  show ?thesis by (rule conjunct2 [OF game_over_is_final [OF o]])
qed

subsection \<open>Flagged cells\<close>

text \<open>
  Claim C5, as amended.  A reveal request on a flagged cell is a no-op: the cell stays
  flagged, and no counter and no other cell changes.  A reveal request on another cell
  changes a flagged cell only when that cell lies in the cascade set of the revealed
  zero cell, or is a mine and the request ends the game.
\<close>

theorem flagged_cell_reveal:
  assumes "session w h v st" "k < w * h" "l < w * h" "flagged (grid v ! l)"
  shows "handleFieldReveal v st l = (v, st) \<and>
         (grid (fst (handleFieldReveal v st k)) ! l \<noteq> grid v ! l \<longrightarrow>
            valueAt w (fields' st) k = 0 \<and> l \<in> cascadeSet w h (fields' st) k \<or>
            isGameOver (snd (handleFieldReveal v st k)) \<and> valueAt w (fields' st) l = -1)"
proof
  show "handleFieldReveal v st l = (v, st)" using assms(4) by (rule handleFieldReveal_flagged)
next
  let ?fs = "fields' st" and ?g = "grid v"
  show "grid (fst (handleFieldReveal v st k)) ! l \<noteq> ?g ! l \<longrightarrow>
            valueAt w ?fs k = 0 \<and> l \<in> cascadeSet w h ?fs k \<or>
            isGameOver (snd (handleFieldReveal v st k)) \<and> valueAt w ?fs l = -1"
  proof (cases "flagged (?g ! k)")
    case True
    then show ?thesis by (simp add: handleFieldReveal_flagged)
  next
    case False
    then have lk: "l \<noteq> k" using assms(4) by auto
    define left where "left = fieldsLeft st - (\<Sum>l \<in> revealSet w h ?fs ?g k. decr ?fs (?g ! l))"
    note E = handleFieldReveal_eq [OF assms(1,2) False left_def refl]
    show ?thesis
    proof
      assume "grid (fst (handleFieldReveal v st k)) ! l \<noteq> ?g ! l"
      then have "afterReveal w h ?fs ?g k left l \<noteq> ?g ! l"
        unfolding E using assms(3) by simp
      from afterReveal_changed [OF lk this]
      consider "l \<in> revealSet w h ?fs ?g k" | "left = 0" "valueAt w ?fs l = -1" by blast
      then show "valueAt w ?fs k = 0 \<and> l \<in> cascadeSet w h ?fs k \<or>
            isGameOver (snd (handleFieldReveal v st k)) \<and> valueAt w ?fs l = -1"
      proof cases
        case 1
        then show ?thesis unfolding E using lk
          by (auto simp: revealSet_def mines_def split: if_splits)
      next
        case 2
        then show ?thesis unfolding E by simp
      qed
    qed
  qed
qed

theorem flagged_cell_reveal_witness:
  "handleFieldReveal (fst (clicks (newView rowBoard, rowBoard) [flagClick 1]))
     (snd (clicks (newView rowBoard, rowBoard) [flagClick 1])) 1 =
     clicks (newView rowBoard, rowBoard) [flagClick 1] \<and>
   1 \<in> cascadeSet 5 1 (fields' rowBoard) 0"
proof -
  let ?c = "clicks (newView rowBoard, rowBoard) [flagClick 1]"
  have fl: "flagged (grid (fst ?c) ! 1)" by code_simp
  have fs: "fields' (snd ?c) = fields' rowBoard" by code_simp
  have ch: "grid (fst (handleFieldReveal (fst ?c) (snd ?c) 0)) ! 1 \<noteq> grid (fst ?c) ! 1"
    by code_simp
  have v: "valueAt 5 (fields' rowBoard) 1 \<noteq> -1" by (simp add: valueAt_def rowBoard_def)
  note T = flagged_cell_reveal [OF flagged_row_session _ _ fl, of 0, unfolded fs]
  have "handleFieldReveal (fst ?c) (snd ?c) 1 = ?c" using T by simp
  moreover have "1 \<in> cascadeSet 5 1 (fields' rowBoard) 0" using T ch v by simp
  ultimately show ?thesis ..
qed

text \<open>
  Claim C5 as stated fails.  On the row \<open>0 0 1 * 1\<close>: when the mine is flagged and the
  player reveals all other cells, the game is won and \<open>gameOver\<close> reveals the flagged
  mine; and when the second cell is flagged, the reveal request on the first cell reveals
  it through the cascade.  In both cases \<open>revealField\<close> removes the flag.
\<close>

theorem flagged_cell_revealed:
  "initGameState (\<lambda>k. 3) 5 1 1 = Some rowBoard \<and>
   flagged (grid (fst (clicks (newView rowBoard, rowBoard)
      [flagClick 3, revealClick 0])) ! 3) \<and>
   \<not> disabled (grid (fst (clicks (newView rowBoard, rowBoard)
      [flagClick 3, revealClick 0])) ! 3) \<and>
   disabled (grid (fst (clicks (newView rowBoard, rowBoard)
      [flagClick 3, revealClick 0, revealClick 4])) ! 3) \<and>
   \<not> flagged (grid (fst (clicks (newView rowBoard, rowBoard)
      [flagClick 3, revealClick 0, revealClick 4])) ! 3) \<and>
   flagged (grid (fst (clicks (newView rowBoard, rowBoard) [flagClick 1])) ! 1) \<and>
   \<not> disabled (grid (fst (clicks (newView rowBoard, rowBoard) [flagClick 1])) ! 1) \<and>
   disabled (grid (fst (clicks (newView rowBoard, rowBoard) [flagClick 1, revealClick 0])) ! 1) \<and>
   \<not> flagged (grid (fst (clicks (newView rowBoard, rowBoard) [flagClick 1, revealClick 0])) ! 1)"
  by code_simp

subsection \<open>The cascade\<close>


lemma rowBoard_cascade:
  "2 \<in> cascadeSet 5 1 (fields' rowBoard) 0" "4 \<notin> cascadeSet 5 1 (fields' rowBoard) 0"
proof -
  let ?fs = "fields' rowBoard"
  have z0: "valueAt 5 ?fs 0 = 0" by (simp add: valueAt_def rowBoard_def)
  have "1 \<in> zeroRegion 5 1 ?fs 0"
    by (rule zeroRegion.step [OF zeroRegion.start]) (simp_all add: adj4_def valueAt_def rowBoard_def)
  moreover have "adj4 5 1 1 2" by (simp add: adj4_def)
  moreover have "valueAt 5 ?fs 2 \<noteq> 0" by (simp add: valueAt_def rowBoard_def)
  ultimately show "2 \<in> cascadeSet 5 1 ?fs 0" by (auto simp: cascadeSet_def)
  show "4 \<notin> cascadeSet 5 1 ?fs 0"
  proof
    assume "4 \<in> cascadeSet 5 1 ?fs 0"
    then consider "4 \<in> zeroRegion 5 1 ?fs 0"
      | k where "k \<in> zeroRegion 5 1 ?fs 0" "adj4 5 1 k 4"
      by (auto simp: cascadeSet_def)
    then show False
    proof cases
      case 1
      from zeroRegion_zero [OF z0 1] show False by (simp add: valueAt_def rowBoard_def)
    next
      case 2
      have "k = 3" using 2(2) by (auto simp: adj4_def)
      then show False using zeroRegion_zero [OF z0 2(1)] by (simp add: valueAt_def rowBoard_def)
    qed
  qed
qed





subsection \<open>Zero cells have no mine next to them\<close>

lemma adj4_near:
  assumes "adj4 w h k l"
  shows "near (l mod w) (k mod w) \<and> near (l div w) (k div w)"
  using assms by (auto simp: adj4_def near_def)

lemma zero_no_mine_neighbour:
  assumes rep: "represents w h fs M" and inb: "\<forall>c\<in>M. fst c < w \<and> snd c < h"
    and w: "0 < w" and z: "valueAt w fs k = 0" and adj: "adj4 w h k l"
  shows "valueAt w fs l \<noteq> -1"
proof
  assume m: "valueAt w fs l = -1"
  have k: "k < w * h" and l: "l < w * h" using adj by (simp_all add: adj4_def)
  note bk = cellOf_bounds [OF w k] and bl = cellOf_bounds [OF w l]
  have "M \<subseteq> {..<w} \<times> {..<h}" using inb by auto
  then have fin: "finite M" by (rule finite_subset) simp
  have "boardOf M (l mod w) (l div w) = -1"
    using rep bl m by (simp add: represents_def valueAt_def)
  then have lM: "(l mod w, l div w) \<in> M" by (simp add: boardOf_mine_iff)
  have "boardOf M (k mod w) (k div w) = 0"
    using rep bk z by (simp add: represents_def valueAt_def)
  then have "card {c \<in> M. near (fst c) (k mod w) \<and> near (snd c) (k div w)} = 0"
    by (simp add: boardOf_def split: if_splits)
  then have "{c \<in> M. near (fst c) (k mod w) \<and> near (snd c) (k div w)} = {}"
    using fin by simp
  then show False using lM adj4_near [OF adj] by auto
qed

lemma cascade_no_mine:
  assumes rep: "represents w h fs M" and inb: "\<forall>c\<in>M. fst c < w \<and> snd c < h"
    and w: "0 < w" and z: "valueAt w fs k = 0" and l: "l \<in> cascadeSet w h fs k"
  shows "valueAt w fs l \<noteq> -1"
proof -
  from l consider "l \<in> zeroRegion w h fs k"
    | k' where "k' \<in> zeroRegion w h fs k" "adj4 w h k' l"
    by (auto simp: cascadeSet_def)
  then show ?thesis
  proof cases
    case 1
    then show ?thesis using zeroRegion_zero [OF z] by simp
  next
    case 2
    have "valueAt w fs k' = 0" using zeroRegion_zero [OF z 2(1)] .
    then show ?thesis using zero_no_mine_neighbour [OF rep inb w _ 2(2)] by simp
  qed
qed

text \<open>
  Claim C10.  On a generated grid, a cascade started at a cell of value 0 visits and
  reveals no mine: the cells it visits are the cascade set, none of them is a mine, the
  buttons of the mines are as before when \<open>revealEmptyArea\<close> returns, and the reveal
  request does not set the outcome to Lost.
\<close>

theorem cascade_avoids_mines:
  assumes "0 < width" "0 < height" "0 \<le> mc" "\<forall>k. draws k < width * height"
    and "initGameState draws width height mc = Some st0"
    and "fields' st = fields' st0" "layout width height (grid v)"
    and "k < width * height" "valueAt width (fields' st) k = 0"
  shows "visited (visit width height (int (k mod width)) (int (k div width))
            \<lparr>visited = {}, children = grid v, wstate = st\<rparr>) =
           cascadeSet width height (fields' st) k \<and>
         (\<forall>l \<in> cascadeSet width height (fields' st) k. valueAt width (fields' st) l \<noteq> -1) \<and>
         (\<forall>l < width * height. valueAt width (fields' st) l = -1 \<longrightarrow>
            fst (revealEmptyArea (grid v) st (int (k mod width)) (int (k div width))) ! l =
            grid v ! l) \<and>
         (restart (fst (handleFieldReveal v st k)) = restart v \<or>
          restart (fst (handleFieldReveal v st k)) = Won)"
proof -
  let ?fs = "fields' st" and ?C = "cascadeSet width height (fields' st) k"
  from generated_board [OF assms(1,2,3,4,5)] obtain M where
    rep: "represents width height ?fs M" and
    inb: "\<forall>c\<in>M. fst c < width \<and> snd c < height"
    unfolding assms(6) by blast
  have sh: "shape width height ?fs" using rep by (simp add: represents_def)
  have len: "length (grid v) = width * height" using assms(7) by (simp add: layout_def)
  note n = idx_of_nat [OF assms(1,8)]
  have b: "k mod width < width" "k div width < height"
    using cellOf_bounds [OF assms(1,8)] by simp_all
  have z: "?fs ! (k div width) ! (k mod width) = 0" using assms(9) by (simp add: valueAt_def)
  have kk: "k div width * width + k mod width = k" by simp
  have 1: "visited (visit width height (int (k mod width)) (int (k div width))
            \<lparr>visited = {}, children = grid v, wstate = st\<rparr>) = ?C"
    using visit_cascade [OF len n(1), of st] assms(9) n(2) by simp
  have 2: "\<forall>l \<in> ?C. valueAt width ?fs l \<noteq> -1"
    using cascade_no_mine [OF rep inb assms(1,9)] by blast
  from revealEmptyArea_eq [OF sh len b z, unfolded kk]
  obtain g' where r: "fst (revealEmptyArea (grid v) st (int (k mod width)) (int (k div width))) = g'"
    and g': "\<forall>l < width * height. g' ! l = (if l \<in> ?C then revealed ?fs (grid v ! l) else grid v ! l)"
    by auto
  have 3: "\<forall>l < width * height. valueAt width ?fs l = -1 \<longrightarrow>
            fst (revealEmptyArea (grid v) st (int (k mod width)) (int (k div width))) ! l =
            grid v ! l"
    unfolding r using g' 2 by auto
  have s: "session width height v st" using assms(1,2,7) sh by (simp add: session_def)
  have 4: "restart (fst (handleFieldReveal v st k)) = restart v \<or>
          restart (fst (handleFieldReveal v st k)) = Won"
  proof (cases "flagged (grid v ! k)")
    case True
    then show ?thesis by (simp add: handleFieldReveal_flagged)
  next
    case False
    show ?thesis
      unfolding handleFieldReveal_eq [OF s assms(8) False refl refl] using assms(9) by simp
  qed
  show ?thesis using 1 2 3 4 by blast
qed

theorem cascade_avoids_mines_witness:
  "valueAt 5 (fields' rowBoard) 2 \<noteq> -1 \<and>
   fst (revealEmptyArea (grid (newView rowBoard)) rowBoard 0 0) ! 3 = grid (newView rowBoard) ! 3 \<and>
   restart (fst (handleFieldReveal (newView rowBoard) rowBoard 0)) = NoClass"
proof -
  have gen: "initGameState (\<lambda>k. 3) 5 1 1 = Some rowBoard" by code_simp
  have dr: "\<forall>k. (\<lambda>k. 3) k < 5 * (1::nat)" by simp
  have lay: "layout 5 1 (grid (newView rowBoard))"
    using rowBoard_session by (simp add: session_def)
  have z: "valueAt 5 (fields' rowBoard) 0 = 0" and m: "valueAt 5 (fields' rowBoard) 3 = -1"
    by (simp_all add: valueAt_def rowBoard_def)
  have p: "0 < (5::nat)" "0 < (1::nat)" "(0::int) \<le> 1" "(0::nat) < 5 * 1" by simp_all
  note T = cascade_avoids_mines [OF p(1,2,3) dr gen refl lay p(4) z]
  have "valueAt 5 (fields' rowBoard) 2 \<noteq> -1" using T rowBoard_cascade(1) by blast
  moreover have "fst (revealEmptyArea (grid (newView rowBoard)) rowBoard 0 0) ! 3 =
                 grid (newView rowBoard) ! 3"
    using T m by simp
  moreover have "restart (fst (handleFieldReveal (newView rowBoard) rowBoard 0)) \<noteq> Won"
    by code_simp
  then have "restart (fst (handleFieldReveal (newView rowBoard) rowBoard 0)) = NoClass"
    using T newView_session(3) [of 5 1 rowBoard] by (simp add: rowBoard_def shape_def)
  ultimately show ?thesis by blast
qed

section \<open>Counting the cells left\<close>

lemma cascadeSet_bound:
  assumes "k < w * h"
  shows "cascadeSet w h fs k \<subseteq> {..<w * h}"
proof -
  have "l < w * h" if "l \<in> zeroRegion w h fs k" for l
    using that assms by (induction rule: zeroRegion.induct) (simp_all add: adj4_def)
  then show ?thesis by (auto simp: cascadeSet_def adj4_def)
qed

lemma revealSet_bound:
  assumes "k < w * h"
  shows "revealSet w h fs g k \<subseteq> {..<w * h}"
  using assms cascadeSet_bound [OF assms, of fs] by (auto simp: revealSet_def mines_def)

lemma cascade_closed:
  assumes "c \<in> cascadeSet w h fs k" "valueAt w fs c = 0" "adj4 w h c l"
  shows "l \<in> cascadeSet w h fs k"
proof -
  have c: "c \<in> zeroRegion w h fs k" using assms(1,2) by (auto simp: cascadeSet_def)
  show ?thesis
  proof (cases "valueAt w fs l = 0")
    case True
    then have "l \<in> zeroRegion w h fs k" using zeroRegion.step [OF c assms(3)] by simp
    then show ?thesis by (simp add: cascadeSet_def)
  next
    case False
    then show ?thesis using c assms(3) by (auto simp: cascadeSet_def)
  qed
qed

lemma afterReveal_disabled:
  assumes "k < w * h"
  shows "disabled (afterReveal w h fs g k left l) \<longleftrightarrow>
         disabled (g ! l) \<or> l \<in> revealSet w h fs g k \<or> left = 0 \<and> valueAt w fs l = -1"
  using assms by (auto simp: afterReveal_def revealSet_def mines_def)

lemma settled_cascade:
  assumes "settled w h v st" "disabled (grid v ! k)" "valueAt w (fields' st) k = 0"
    and "l \<in> cascadeSet w h (fields' st) k"
  shows "disabled (grid v ! l)"
proof -
  have cl: "\<And>c l. disabled (grid v ! c) \<Longrightarrow> valueAt w (fields' st) c = 0 \<Longrightarrow> adj4 w h c l \<Longrightarrow>
              disabled (grid v ! l)"
    using assms(1) unfolding settled_def by blast
  have reg: "disabled (grid v ! c)" if "c \<in> zeroRegion w h (fields' st) k" for c
    using that
  proof (induction rule: zeroRegion.induct)
    case start
    show ?case by (rule assms(2))
  next
    case (step c l)
    show ?case using cl [OF step.IH zeroRegion_zero [OF assms(3) step(1)] step(2)] .
  qed
  from assms(4) consider "l \<in> zeroRegion w h (fields' st) k"
    | c where "c \<in> zeroRegion w h (fields' st) k" "adj4 w h c l"
    by (auto simp: cascadeSet_def)
  then show ?thesis
  proof cases
    case 1
    then show ?thesis by (rule reg)
  next
    case 2
    show ?thesis using cl [OF reg [OF 2(1)] zeroRegion_zero [OF assms(3) 2(1)] 2(2)] .
  qed
qed

lemma ensureTimerStarted_simps [simp]:
  "timerInterval (ensureTimerStarted st)" "fields' (ensureTimerStarted st) = fields' st"
  "fieldsLeft (ensureTimerStarted st) = fieldsLeft st"
  "isGameOver (ensureTimerStarted st) = isGameOver st"
  "minesLeft (ensureTimerStarted st) = minesLeft st"
  by (simp_all add: ensureTimerStarted_def)

lemma ensureTimerStarted_id: "timerInterval st \<Longrightarrow> ensureTimerStarted st = st"
  by (simp add: ensureTimerStarted_def)

lemma settled_timer:
  "settled w h v st \<Longrightarrow> settled w h v (ensureTimerStarted st)"
  by (simp add: settled_def)

lemma handleFieldFlag_settled:
  assumes "settled w h v st" "timerInterval st" "length (grid v) = w * h"
  shows "settled w h (fst (handleFieldFlag v st k)) (snd (handleFieldFlag v st k))"
proof (cases "disabled (grid v ! k)")
  case True
  then show ?thesis using assms(1) by (simp add: handleFieldFlag_def Let_def)
next
  case False
  have d: "disabled ((grid v)[k := (grid v ! k)\<lparr>flagged := \<not> flagged (grid v ! k)\<rparr>] ! l) =
           disabled (grid v ! l)" for l
    by (cases "l = k"; cases "k < length (grid v)") (simp_all add: list_update_beyond)
  show ?thesis
    using assms(1) False unfolding settled_def by (simp add: handleFieldFlag_def Let_def d)
qed

lemma handleFieldReveal_settled:
  assumes s: "session w h v st" and k: "k < w * h" and set: "settled w h v st"
    and t: "timerInterval st"
  shows "settled w h (fst (handleFieldReveal v st k)) (snd (handleFieldReveal v st k))"
proof (cases "flagged (grid v ! k)")
  case True
  then show ?thesis using set by (simp add: handleFieldReveal_flagged)
next
  case False
  let ?fs = "fields' st" and ?g = "grid v"
  define left where "left = fieldsLeft st - (\<Sum>l \<in> revealSet w h ?fs ?g k. decr ?fs (?g ! l))"
  note E = handleFieldReveal_eq [OF s k False left_def refl]
  have bound: "\<And>c l. adj4 w h c l \<Longrightarrow> c < w * h \<and> l < w * h" by (simp add: adj4_def)
  have g': "\<And>l. l < w * h \<Longrightarrow> disabled (grid (fst (handleFieldReveal v st k)) ! l) \<longleftrightarrow>
       disabled (?g ! l) \<or> l \<in> revealSet w h ?fs ?g k \<or> left = 0 \<and> valueAt w ?fs l = -1"
    unfolding E by (simp add: afterReveal_disabled [OF k])
  have cl: "\<And>c l. disabled (?g ! c) \<Longrightarrow> valueAt w ?fs c = 0 \<Longrightarrow> adj4 w h c l \<Longrightarrow>
              disabled (?g ! l)"
    using set unfolding settled_def by blast
  have 1: "disabled (grid (fst (handleFieldReveal v st k)) ! l)"
    if c: "disabled (grid (fst (handleFieldReveal v st k)) ! c)"
      and z: "valueAt w ?fs c = 0" and a: "adj4 w h c l" for c l
  proof -
    note b = bound [OF a]
    from c g' b consider "disabled (?g ! c)" | "c \<in> revealSet w h ?fs ?g k"
      | "valueAt w ?fs c = -1"
      by blast
    then show ?thesis
    proof cases
      case 1
      then show ?thesis using cl [OF _ z a] g' b by blast
    next
      case 2
      then have "valueAt w ?fs k = 0 \<and> c \<in> cascadeSet w h ?fs k"
        using z by (auto simp: revealSet_def mines_def split: if_splits)
      then have "l \<in> revealSet w h ?fs ?g k"
        using cascade_closed [OF _ z a] by (simp add: revealSet_def)
      then show ?thesis using g' b by blast
    next
      case 3
      then show ?thesis using z by simp
    qed
  qed
  have 2: "fieldsLeft (snd (handleFieldReveal v st k)) \<noteq> 0 \<and>
           timerInterval (snd (handleFieldReveal v st k))"
    if "\<not> isGameOver (snd (handleFieldReveal v st k))"
    using that t unfolding E by simp
  have f: "fields' (snd (handleFieldReveal v st k)) = ?fs" unfolding E by simp
  show ?thesis unfolding settled_def f using 1 2 by blast
qed

lemma mousedown_settled:
  assumes "session w h v st" "settled w h v st" "validEvent w h ev"
  shows "settled w h (fst (mousedown v st ev)) (snd (mousedown v st ev))"
proof (cases "isGameOver st")
  case True
  then show ?thesis using assms(2) by (simp add: mousedown_def)
next
  case False
  show ?thesis
  proof (cases "target ev")
    case OtherElement
    then show ?thesis using assms(2) by (simp add: mousedown_def)
  next
    case (Button k)
    then have k: "k < w * h" using assms(3) by (simp add: validEvent_def)
    note s = ensureTimerStarted_session [OF assms(1)]
    note t = settled_timer [OF assms(2)]
    have len: "length (grid v) = w * h" using assms(1) by (simp add: session_def layout_def)
    show ?thesis
      using Button False handleFieldFlag_settled [OF t _ len, of k]
        handleFieldReveal_settled [OF s k t]
      by (simp add: mousedown_def Let_def)
  qed
qed

lemma clicks_settled:
  assumes "session w h (fst s) (snd s)" "settled w h (fst s) (snd s)"
    and "\<forall>ev \<in> set evs. validEvent w h ev"
  shows "settled w h (fst (clicks s evs)) (snd (clicks s evs))"
  using assms
proof (induction evs arbitrary: s)
  case Nil
  then show ?case by simp
next
  case (Cons ev evs)
  have v: "validEvent w h ev" using Cons.prems(3) by simp
  note s' = mousedown_session [OF Cons.prems(1) v]
  note t' = mousedown_settled [OF Cons.prems(1,2) v]
  show ?case using Cons.IH [OF _ _ ] s' t' Cons.prems(3) by simp
qed

lemma newView_settled:
  assumes "shape w h (fields' st)" "0 < w" "0 < h"
  shows "settled w h (newView st) st"
proof -
  have n: "\<And>l. l < w * h \<Longrightarrow> \<not> disabled (grid (newView st) ! l)"
    using newView_session(2) [OF assms] by blast
  have "\<And>k l. adj4 w h k l \<Longrightarrow> k < w * h" by (simp add: adj4_def)
  then show ?thesis unfolding settled_def using n by blast
qed

lemma decr_layout:
  assumes "layout w h g" "l < w * h"
  shows "decr fs (g ! l) = (if \<not> disabled (g ! l) \<and> valueAt w fs l \<noteq> -1 then 1 else 0)"
  using layout_value [OF assms, of fs] by (simp add: decr_def)

lemma sum_decr_card:
  assumes "layout w h g" "R \<subseteq> {..<w * h}"
  shows "(\<Sum>l \<in> R. decr fs (g ! l)) =
         int (card {l \<in> R. \<not> disabled (g ! l) \<and> valueAt w fs l \<noteq> -1})"
proof -
  have fin: "finite R" using assms(2) by (rule finite_subset) simp
  have "(\<Sum>l \<in> R. decr fs (g ! l)) =
        (\<Sum>l \<in> R. if \<not> disabled (g ! l) \<and> valueAt w fs l \<noteq> -1 then 1 else 0)"
    using assms(2) by (intro sum.cong refl decr_layout [OF assms(1)]) auto
  also have "\<dots> = int (card {l \<in> R. \<not> disabled (g ! l) \<and> valueAt w fs l \<noteq> -1})"
    using fin by (simp add: sum.If_cases Int_def)
  finally show ?thesis .
qed

lemma handleFieldReveal_accounting:
  assumes s: "session w h v st" and k: "k < w * h"
  shows "fieldsLeft (snd (handleFieldReveal v st k)) = fieldsLeft st -
           int (card {l. l < w * h \<and> valueAt w (fields' st) l \<noteq> -1 \<and> \<not> disabled (grid v ! l) \<and>
                         disabled (grid (fst (handleFieldReveal v st k)) ! l)})"
proof (cases "flagged (grid v ! k)")
  case True
  then show ?thesis by (simp add: handleFieldReveal_flagged)
next
  case False
  let ?fs = "fields' st" and ?g = "grid v"
  let ?R = "revealSet w h ?fs ?g k"
  define left where "left = fieldsLeft st - (\<Sum>l \<in> ?R. decr ?fs (?g ! l))"
  note E = handleFieldReveal_eq [OF s k False left_def refl]
  have lay: "layout w h ?g" using s by (simp add: session_def)
  note b = revealSet_bound [OF k, of ?fs ?g]
  have "{l. l < w * h \<and> valueAt w ?fs l \<noteq> -1 \<and> \<not> disabled (?g ! l) \<and>
            disabled (grid (fst (handleFieldReveal v st k)) ! l)} =
        {l \<in> ?R. \<not> disabled (?g ! l) \<and> valueAt w ?fs l \<noteq> -1}"
    unfolding E using b by (auto simp: afterReveal_disabled [OF k])
  then show ?thesis
    using sum_decr_card [OF lay b, of ?fs] unfolding E by (simp add: left_def)
qed

lemma handleFieldFlag_frame:
  "fieldsLeft (snd (handleFieldFlag v st k)) = fieldsLeft st"
  "disabled (grid (fst (handleFieldFlag v st k)) ! l) = disabled (grid v ! l)"
proof -
  show "fieldsLeft (snd (handleFieldFlag v st k)) = fieldsLeft st"
    by (simp add: handleFieldFlag_def Let_def)
  show "disabled (grid (fst (handleFieldFlag v st k)) ! l) = disabled (grid v ! l)"
    by (cases "l = k"; cases "k < length (grid v)")
       (simp_all add: handleFieldFlag_def Let_def list_update_beyond)
qed

lemma mousedown_accounting:
  assumes s: "session w h v st" and ev: "validEvent w h ev"
  shows "fieldsLeft (snd (mousedown v st ev)) = fieldsLeft st -
           int (card {l. l < w * h \<and> valueAt w (fields' st) l \<noteq> -1 \<and> \<not> disabled (grid v ! l) \<and>
                         disabled (grid (fst (mousedown v st ev)) ! l)})"
proof -
  have same: "fieldsLeft st = fieldsLeft st -
           int (card {l. l < w * h \<and> valueAt w (fields' st) l \<noteq> -1 \<and> \<not> disabled (grid v ! l) \<and>
                         disabled (grid v ! l)})"
    by simp
  show ?thesis
  proof (cases "isGameOver st \<or> target ev = OtherElement")
    case True
    then show ?thesis using same by (auto simp: mousedown_def)
  next
    case False
    then obtain k where b: "target ev = Button k" by (cases "target ev") auto
    then have k: "k < w * h" using ev by (simp add: validEvent_def)
    note t = ensureTimerStarted_session [OF s]
    show ?thesis
    proof (cases "evButton ev = 2")
      case True
      then show ?thesis using False b same
        by (simp add: mousedown_def Let_def handleFieldFlag_frame)
    next
      case F: False
      then show ?thesis using False b handleFieldReveal_accounting [OF t k]
        by (simp add: mousedown_def Let_def)
    qed
  qed
qed

lemma reveal_revealed_noop:
  assumes s: "session w h v st" and set: "settled w h v st" and k: "k < w * h"
    and d: "disabled (grid v ! k)"
  shows "mousedown v st (revealClick k) = (v, st)"
proof (cases "isGameOver st")
  case True
  then show ?thesis by (simp add: mousedown_def)
next
  case False
  have live: "fieldsLeft st \<noteq> 0" "timerInterval st"
    using set False k d unfolding settled_def by blast+
  have m: "mousedown v st (revealClick k) = handleFieldReveal v st k"
    using False live(2) by (simp add: mousedown_def revealClick_def ensureTimerStarted_id)
  show ?thesis
  proof (cases "flagged (grid v ! k)")
    case True
    then show ?thesis unfolding m by (rule handleFieldReveal_flagged)
  next
    case nf: False
    let ?fs = "fields' st" and ?g = "grid v"
    let ?R = "revealSet w h ?fs ?g k"
    define left where "left = fieldsLeft st - (\<Sum>l \<in> ?R. decr ?fs (?g ! l))"
    note E = handleFieldReveal_eq [OF s k nf left_def refl]
    have lay: "layout w h ?g" using s by (simp add: session_def)
    have len: "length ?g = w * h" using lay by (simp add: layout_def)
    have R: "disabled (?g ! l)" if "l \<in> ?R" for l
      using that d settled_cascade [OF set d] by (auto simp: revealSet_def split: if_splits)
    have "(\<Sum>l \<in> ?R. decr ?fs (?g ! l)) = 0"
      by (rule sum.neutral) (simp add: decr_def R)
    then have left: "left = fieldsLeft st" by (simp add: left_def)
    have "afterReveal w h ?fs ?g k left l = ?g ! l" for l
      using d R [of l] live(1) by (simp add: afterReveal_def left revealed_id)
    then have "afterReveal w h ?fs ?g k left = (\<lambda>l. ?g ! l)" by (intro ext)
    then have g: "map (afterReveal w h ?fs ?g k left) [0..<w * h] = ?g"
      using map_upt_id [OF len] by simp
    show ?thesis unfolding m E g using d live(1) False by (simp add: left)
  qed
qed

text \<open>
  Claim C3.  Along every sequence of clicks on a fresh session: one call of
  \<open>revealField\<close> lowers \<open>fieldsLeft\<close> by one exactly when it reveals a cell that is not a
  mine and was not revealed before; each click lowers \<open>fieldsLeft\<close> by the number of
  non-mine cells that it turns from unrevealed to revealed, so never for a mine; and a
  reveal request on a cell that is already revealed changes nothing in the session.
\<close>

theorem fieldsLeft_accounting:
  assumes "0 < w" "0 < h" "shape w h (fields' st0)"
    and "\<forall>e \<in> set evs. validEvent w h e" "validEvent w h ev" "k < w * h"
    and "clicks (newView st0, st0) evs = (v, st)"
  shows "fieldsLeft (fst (snd (revealField st b))) =
           fieldsLeft st - (if \<not> disabled b \<and> fields' st ! dataY b ! dataX b \<noteq> -1 then 1 else 0) \<and>
         fieldsLeft (snd (mousedown v st ev)) = fieldsLeft st -
           int (card {l. l < w * h \<and> valueAt w (fields' st) l \<noteq> -1 \<and> \<not> disabled (grid v ! l) \<and>
                         disabled (grid (fst (mousedown v st ev)) ! l)}) \<and>
         (disabled (grid v ! k) \<longrightarrow> mousedown v st (revealClick k) = (v, st))"
proof -
  have s0: "session w h (fst (newView st0, st0)) (snd (newView st0, st0))"
    using newView_session(1) [OF assms(3,1,2)] by simp
  have t0: "settled w h (fst (newView st0, st0)) (snd (newView st0, st0))"
    using newView_settled [OF assms(3,1,2)] by simp
  have s: "session w h v st" using clicks_session [OF s0 assms(4)] assms(7) by simp
  have t: "settled w h v st" using clicks_settled [OF s0 t0 assms(4)] assms(7) by simp
  have 1: "fieldsLeft (fst (snd (revealField st b))) =
           fieldsLeft st - (if \<not> disabled b \<and> fields' st ! dataY b ! dataX b \<noteq> -1 then 1 else 0)"
    by (simp add: revealField_eq decr_def)
  show ?thesis
    using 1 mousedown_accounting [OF s assms(5)] reveal_revealed_noop [OF s t assms(6)]
    by blast
qed

theorem fieldsLeft_accounting_witness:
  "fieldsLeft (snd (mousedown (fst (clicks (newView rowBoard, rowBoard) [revealClick 0]))
       (snd (clicks (newView rowBoard, rowBoard) [revealClick 0])) (revealClick 4))) =
     fieldsLeft (snd (clicks (newView rowBoard, rowBoard) [revealClick 0])) -
     int (card {l. l < 5 * 1 \<and>
        valueAt 5 (fields' (snd (clicks (newView rowBoard, rowBoard) [revealClick 0]))) l \<noteq> -1 \<and>
        \<not> disabled (grid (fst (clicks (newView rowBoard, rowBoard) [revealClick 0])) ! l) \<and>
        disabled (grid (fst (mousedown (fst (clicks (newView rowBoard, rowBoard) [revealClick 0]))
          (snd (clicks (newView rowBoard, rowBoard) [revealClick 0])) (revealClick 4))) ! l)}) \<and>
   mousedown (fst (clicks (newView rowBoard, rowBoard) [revealClick 0]))
       (snd (clicks (newView rowBoard, rowBoard) [revealClick 0])) (revealClick 1) =
     clicks (newView rowBoard, rowBoard) [revealClick 0] \<and>
   fieldsLeft (snd (clicks (newView rowBoard, rowBoard) [revealClick 0])) = 1 \<and>
   fieldsLeft (snd (clicks (newView rowBoard, rowBoard) [revealClick 0, revealClick 4])) = 0"
proof -
  let ?c = "clicks (newView rowBoard, rowBoard) [revealClick 0]"
  have p: "0 < (5::nat)" "0 < (1::nat)" "shape 5 1 (fields' rowBoard)"
    by (simp_all add: rowBoard_def shape_def)
  have e: "\<forall>e \<in> set [revealClick 0]. validEvent 5 1 e" "validEvent 5 1 (revealClick 4)"
    "(1::nat) < 5 * 1"
    by (simp_all add: validEvent_def revealClick_def)
  have c: "?c = (fst ?c, snd ?c)" by simp
  have d: "disabled (grid (fst ?c) ! 1)" by code_simp
  note T = fieldsLeft_accounting [OF p e c]
  have "fieldsLeft (snd ?c) = 1" by code_simp
  moreover have "fieldsLeft (snd (clicks (newView rowBoard, rowBoard)
      [revealClick 0, revealClick 4])) = 0"
    by code_simp
  ultimately show ?thesis using T d by simp
qed

section \<open>The mine counter\<close>

lemma filter_update_length:
  "k < length xs \<Longrightarrow>
     int (length (filter P (xs[k := y]))) =
     int (length (filter P xs)) - (if P (xs ! k) then 1 else 0) + (if P y then 1 else 0)"
proof (induction xs arbitrary: k)
  case Nil
  then show ?case by simp
next
  case (Cons x xs)
  show ?case
  proof (cases k)
    case 0
    then show ?thesis by simp
  next
    case (Suc j)
    then have "j < length xs" using Cons.prems by simp
    from Cons.IH [OF this] show ?thesis using Suc by (auto split: if_splits)
  qed
qed

lemma filter_length_cong:
  "map P xs = map P ys \<Longrightarrow> length (filter P xs) = length (filter P ys)"
proof (induction xs arbitrary: ys)
  case Nil
  then show ?case by simp
next
  case (Cons x xs)
  then obtain y ys' where ys: "ys = y # ys'" "P x = P y" "map P xs = map P ys'"
    by (cases ys) auto
  show ?case using Cons.IH [OF ys(3)] ys(1,2) by simp
qed

lemma handleFieldFlag_count:
  assumes "k < length (grid v)" "\<not> disabled (grid v ! k)"
  shows "int (flagCount (fst (handleFieldFlag v st k))) =
           int (flagCount v) + (if flagged (grid v ! k) then -1 else 1)"
    and "minesLeft (snd (handleFieldFlag v st k)) =
           minesLeft st + (if flagged (grid v ! k) then 1 else -1)"
    and "minesCount (snd (handleFieldFlag v st k)) = minesCount st"
  using assms filter_update_length [OF assms(1), of flagged]
  by (simp_all add: handleFieldFlag_def Let_def flagCount_def)

lemma handleFieldFlag_disabled:
  "disabled (grid v ! k) \<Longrightarrow> handleFieldFlag v st k = (v, st)"
  by (simp add: handleFieldFlag_def Let_def)

lemma afterReveal_flagged:
  assumes "flagged (g ! l) \<longrightarrow> disabled (afterReveal w h fs g k left l) \<longrightarrow> disabled (g ! l)"
  shows "flagged (afterReveal w h fs g k left l) = flagged (g ! l)"
  using assms by (auto simp: afterReveal_def revealed_def split: if_splits)

lemma handleFieldReveal_count:
  assumes s: "session w h v st" and k: "k < w * h"
    and keep: "\<forall>l < w * h. flagged (grid v ! l) \<longrightarrow>
        disabled (grid (fst (handleFieldReveal v st k)) ! l) \<longrightarrow> disabled (grid v ! l)"
  shows "flagCount (fst (handleFieldReveal v st k)) = flagCount v"
    and "minesCount (snd (handleFieldReveal v st k)) = minesCount st"
proof -
  have "flagCount (fst (handleFieldReveal v st k)) = flagCount v \<and>
        minesCount (snd (handleFieldReveal v st k)) = minesCount st"
  proof (cases "flagged (grid v ! k)")
    case True
    then show ?thesis by (simp add: handleFieldReveal_flagged)
  next
    case False
    let ?fs = "fields' st" and ?g = "grid v"
    define left where "left = fieldsLeft st -
       (\<Sum>l \<in> revealSet w h ?fs ?g k. decr ?fs (?g ! l))"
    note E = handleFieldReveal_eq [OF s k False left_def refl]
    have len: "length ?g = w * h" using s by (simp add: session_def layout_def)
    have keep': "\<And>l. l < w * h \<Longrightarrow> flagged (?g ! l) \<longrightarrow>
        disabled (afterReveal w h ?fs ?g k left l) \<longrightarrow> disabled (?g ! l)"
      using keep unfolding E by simp
    have "map flagged (map (afterReveal w h ?fs ?g k left) [0..<w * h]) = map flagged ?g"
      using len afterReveal_flagged [OF keep'] by (auto intro!: nth_equalityI)
    then have "length (filter flagged (map (afterReveal w h ?fs ?g k left) [0..<w * h])) =
               length (filter flagged ?g)"
      by (rule filter_length_cong)
    then show ?thesis unfolding E by (simp add: flagCount_def)
  qed
  then show "flagCount (fst (handleFieldReveal v st k)) = flagCount v"
    and "minesCount (snd (handleFieldReveal v st k)) = minesCount st"
    by simp_all
qed

lemma fresh_flagCount: "flagCount (newView st) = 0"
  by (simp add: flagCount_def newView_def initView_def filter_map comp_def)

lemma initGameState_minesLeft:
  "initGameState draws w h mc = Some st \<Longrightarrow> minesLeft st = mc \<and> minesCount st = mc"
  by (auto simp: initGameState_def insertMines_def Let_def split: option.splits)

text \<open>
  Where the counter follows the flags: \<open>handleFieldFlag\<close> changes \<open>minesLeft\<close> by \<open>-1\<close> when
  it sets a flag and by \<open>+1\<close> when it removes one, without clamping; the counter equals
  \<open>minesCount\<close> minus the number of flagged cells on a fresh session; and a click under
  which no flagged cell gets revealed keeps that equality.
\<close>

lemma minesLeft_follows_flags:
  assumes "session w h v st" "validEvent w h ev" "k < w * h"
    and "\<forall>l < w * h. flagged (grid v ! l) \<longrightarrow>
           disabled (grid (fst (mousedown v st ev)) ! l) \<longrightarrow> disabled (grid v ! l)"
    and "minesLeft st = minesCount st - int (flagCount v)"
  shows "minesLeft (snd (mousedown v st ev)) =
           minesCount (snd (mousedown v st ev)) - int (flagCount (fst (mousedown v st ev))) \<and>
         minesLeft (snd (handleFieldFlag v st k)) =
           (if disabled (grid v ! k) then minesLeft st
            else if flagged (grid v ! k) then minesLeft st + 1 else minesLeft st - 1) \<and>
         (initGameState draws w0 h0 mc = Some st0 \<longrightarrow>
            minesLeft st0 = minesCount st0 - int (flagCount (newView st0)))"
proof -
  have len: "length (grid v) = w * h" using assms(1) by (simp add: session_def layout_def)
  have 1: "minesLeft (snd (mousedown v st ev)) =
           minesCount (snd (mousedown v st ev)) - int (flagCount (fst (mousedown v st ev)))"
  proof (cases "isGameOver st \<or> target ev = OtherElement")
    case True
    then show ?thesis using assms(5) by (auto simp: mousedown_def)
  next
    case False
    then obtain j where b: "target ev = Button j" by (cases "target ev") auto
    then have j: "j < w * h" using assms(2) by (simp add: validEvent_def)
    let ?t = "ensureTimerStarted st"
    note t = ensureTimerStarted_session [OF assms(1)]
    have mc: "minesCount ?t = minesCount st" by (simp add: ensureTimerStarted_def)
    show ?thesis
    proof (cases "evButton ev = 2")
      case True
      then have m: "mousedown v st ev = handleFieldFlag v ?t j"
        using False b by (simp add: mousedown_def Let_def)
      show ?thesis
      proof (cases "disabled (grid v ! j)")
        case True
        then show ?thesis unfolding m using assms(5) mc
          by (simp add: handleFieldFlag_disabled)
      next
        case nd: False
        have jl: "j < length (grid v)" using j len by simp
        show ?thesis
          unfolding m using handleFieldFlag_count [OF jl nd, of ?t] assms(5) mc by simp
      qed
    next
      case F: False
      then have m: "mousedown v st ev = handleFieldReveal v ?t j"
        using False b by (simp add: mousedown_def Let_def)
      have keep: "\<forall>l < w * h. flagged (grid v ! l) \<longrightarrow>
          disabled (grid (fst (handleFieldReveal v ?t j)) ! l) \<longrightarrow> disabled (grid v ! l)"
        using assms(4) unfolding m .
      show ?thesis
        unfolding m
        using handleFieldReveal_count [OF t j keep] handleFieldReveal_minesLeft [OF t j]
          assms(5) mc
        by simp
    qed
  qed
  have 3: "initGameState draws w0 h0 mc = Some st0 \<longrightarrow>
            minesLeft st0 = minesCount st0 - int (flagCount (newView st0))"
    using initGameState_minesLeft [of draws w0 h0 mc st0] by (simp add: fresh_flagCount)
  show ?thesis using 1 3 handleFieldFlag_minesLeft [of v st k] by simp
qed

lemma negative_minesLeft:
  "minesLeft (snd (clicks (newView rowBoard, rowBoard) [flagClick 0, flagClick 1])) =
     minesCount (snd (clicks (newView rowBoard, rowBoard) [flagClick 0, flagClick 1])) -
     int (flagCount (fst (clicks (newView rowBoard, rowBoard) [flagClick 0, flagClick 1]))) \<and>
   minesLeft (snd (clicks (newView rowBoard, rowBoard) [flagClick 0, flagClick 1])) = -1"
proof -
  let ?c = "clicks (newView rowBoard, rowBoard) [flagClick 0]"
  have s: "session 5 1 (fst ?c) (snd ?c)"
  proof (rule clicks_session)
    show "session 5 1 (fst (newView rowBoard, rowBoard)) (snd (newView rowBoard, rowBoard))"
      using rowBoard_session by simp
    show "\<forall>ev \<in> set [flagClick 0]. validEvent 5 1 ev"
      by (simp add: validEvent_def flagClick_def)
  qed
  have e: "validEvent 5 1 (flagClick 1)" "(1::nat) < 5 * 1"
    by (simp_all add: validEvent_def flagClick_def)
  have keep: "\<forall>l < 5 * 1. flagged (grid (fst ?c) ! l) \<longrightarrow>
           disabled (grid (fst (mousedown (fst ?c) (snd ?c) (flagClick 1))) ! l) \<longrightarrow>
           disabled (grid (fst ?c) ! l)"
  proof (intro allI impI)
    fix l :: nat assume l: "l < 5 * 1"
      and d: "disabled (grid (fst (mousedown (fst ?c) (snd ?c) (flagClick 1))) ! l)"
    let ?G = "grid (fst (mousedown (fst ?c) (snd ?c) (flagClick 1)))"
    have m: "map disabled ?G = replicate 5 False" by code_simp
    have "length (map disabled ?G) = 5" unfolding m by simp
    then have "length ?G = 5" by simp
    then have "map disabled ?G ! l = disabled (?G ! l)" using l by simp
    then have "\<not> disabled (?G ! l)" unfolding m using l by simp
    then have False using d by simp
    then show "disabled (grid (fst ?c) ! l)" ..
  qed
  have eq: "minesLeft (snd ?c) = minesCount (snd ?c) - int (flagCount (fst ?c))" by code_simp
  have step: "clicks (newView rowBoard, rowBoard) [flagClick 0, flagClick 1] =
              mousedown (fst ?c) (snd ?c) (flagClick 1)"
    by simp
  have "minesLeft (snd (clicks (newView rowBoard, rowBoard) [flagClick 0, flagClick 1])) = -1"
    by code_simp
  then show ?thesis
    unfolding step using minesLeft_follows_flags [OF s e keep eq] by blast
qed

text \<open>
  Claim C6.  After every operation \<open>minesLeft\<close> equals \<open>minesCount\<close> minus the number of
  flagged cells; \<open>handleFieldFlag\<close> adjusts it by \<open>-1\<close> and \<open>+1\<close>, and no other operation
  breaks the equality.  The code breaks it whenever a flagged cell gets revealed:
  \<open>revealField\<close> removes the class \<open>flagged\<close> and leaves \<open>minesLeft\<close> as it is, where
  \<open>handleFieldFlag\<close> adds 1 for the flag it removes.  On the row \<open>0 0 1 * 1\<close>, flagging the
  second cell gives \<open>minesLeft = 0\<close> with one flag, and flagging it again gives
  \<open>minesLeft = 1\<close> with none; but flagging it and then revealing the first cell (a cascade
  over the flagged cell, the game still in progress) leaves no flag, \<open>minesCount = 1\<close> and
  \<open>minesLeft = 0\<close>.  The same holds after flagging the mine and revealing all other
  cells: the game is won and \<open>gameOver\<close> reveals the flagged mine.
\<close>

theorem minesLeft_breaks_on_flagged_reveal:
  "initGameState (\<lambda>k. 3) 5 1 1 = Some rowBoard \<and>
   minesLeft (snd (clicks (newView rowBoard, rowBoard) [flagClick 1])) = 0 \<and>
   flagCount (fst (clicks (newView rowBoard, rowBoard) [flagClick 1])) = 1 \<and>
   minesLeft (snd (clicks (newView rowBoard, rowBoard) [flagClick 1, flagClick 1])) = 1 \<and>
   flagCount (fst (clicks (newView rowBoard, rowBoard) [flagClick 1, flagClick 1])) = 0 \<and>
   minesLeft (snd (clicks (newView rowBoard, rowBoard) [flagClick 1, revealClick 0])) = 0 \<and>
   flagCount (fst (clicks (newView rowBoard, rowBoard) [flagClick 1, revealClick 0])) = 0 \<and>
   minesCount (snd (clicks (newView rowBoard, rowBoard) [flagClick 1, revealClick 0])) = 1 \<and>
   \<not> isGameOver (snd (clicks (newView rowBoard, rowBoard) [flagClick 1, revealClick 0])) \<and>
   map disabled (grid (fst (clicks (newView rowBoard, rowBoard) [flagClick 1, revealClick 0]))) =
     [True, True, True, False, False] \<and>
   minesLeft (snd (clicks (newView rowBoard, rowBoard)
      [flagClick 3, revealClick 0, revealClick 4])) = 0 \<and>
   flagCount (fst (clicks (newView rowBoard, rowBoard)
      [flagClick 3, revealClick 0, revealClick 4])) = 0 \<and>
   minesCount (snd (clicks (newView rowBoard, rowBoard)
      [flagClick 3, revealClick 0, revealClick 4])) = 1 \<and>
   restart (fst (clicks (newView rowBoard, rowBoard)
      [flagClick 3, revealClick 0, revealClick 4])) = Won"
  by code_simp

section \<open>Revealing a mine\<close>

lemma reveal_mine_loses:
  assumes s: "session w h v st" and k: "k < w * h"
    and nf: "\<not> flagged (grid v ! k)" and nd: "\<not> disabled (grid v ! k)"
    and m: "valueAt w (fields' st) k = -1" and left: "fieldsLeft st \<noteq> 0"
  shows "restart (fst (handleFieldReveal v st k)) = Lost"
    and "isGameOver (snd (handleFieldReveal v st k))"
    and "fieldsLeft (snd (handleFieldReveal v st k)) = fieldsLeft st"
    and "\<forall>l < w * h. valueAt w (fields' st) l = -1 \<longrightarrow>
           disabled (grid (fst (handleFieldReveal v st k)) ! l)"
proof -
  let ?fs = "fields' st" and ?g = "grid v"
  have lay: "layout w h ?g" using s by (simp add: session_def)
  have R: "revealSet w h ?fs ?g k = mines w h ?fs" using m nd by (simp add: revealSet_def)
  have l: "fieldsLeft st = fieldsLeft st - (\<Sum>l \<in> revealSet w h ?fs ?g k. decr ?fs (?g ! l))"
    unfolding R sum_decr_mines [OF lay] by simp
  note E = handleFieldReveal_eq [OF s k nf l refl]
  show "restart (fst (handleFieldReveal v st k)) = Lost" unfolding E using m nd left by simp
  show "isGameOver (snd (handleFieldReveal v st k))" unfolding E using m nd by simp
  show "fieldsLeft (snd (handleFieldReveal v st k)) = fieldsLeft st" unfolding E by simp
  show "\<forall>l < w * h. valueAt w ?fs l = -1 \<longrightarrow> disabled (grid (fst (handleFieldReveal v st k)) ! l)"
    unfolding E by (simp add: afterReveal_disabled [OF k] R mines_def)
qed

text \<open>
  Claim C4.  Revealing an unflagged, unrevealed mine while the game is in progress sets
  the outcome to Lost and reveals every mine, without changing \<open>fieldsLeft\<close> and without
  triggering Won.  On the board of one cell that is a mine (\<open>width = height = minesCount
  = 1\<close>, so \<open>fieldsLeft = 0\<close> from the start) the handler sets \<open>lost\<close> and then, in its final
  test \<open>fieldsLeft === 0\<close>, overwrites it with \<open>won\<close>.  Whenever \<open>fieldsLeft\<close> is not 0,
  the handler does what the claim says.
\<close>

theorem mine_on_full_board_wins:
  "initGameState (\<lambda>k. 0) 1 1 1 = Some fullBoard \<and>
   \<not> isGameOver fullBoard \<and>
   grid (newView fullBoard) =
     [\<lparr>dataX = 0, dataY = 0, disabled = False, flagged = False, exploded = False,
       dataValue = None\<rparr>] \<and>
   mousedown (newView fullBoard) fullBoard (revealClick 0) =
     (\<lparr>restart = Won,
       grid = [\<lparr>dataX = 0, dataY = 0, disabled = True, flagged = False, exploded = True,
                dataValue = Some (-1)\<rparr>]\<rparr>,
      \<lparr>minesCount = 1, minesLeft = 1, isGameOver = True, fieldsLeft = 0,
       fields' = [[-1]], timerInterval = True\<rparr>)"
  by code_simp

section \<open>Restart\<close>

text \<open>
  \<open>restartGame\<close> replaces the state by a newly generated one and resets the view: the
  session it leaves is again the fresh session of its board.
\<close>

lemma reset_layout:
  assumes "layout w h g" "layout w h g'"
  shows "map (\<lambda>b. b\<lparr>disabled := False, flagged := False, exploded := False, dataValue := None\<rparr>) g =
         map (\<lambda>b. b\<lparr>disabled := False, flagged := False, exploded := False, dataValue := None\<rparr>) g'"
proof (rule nth_equalityI)
  show "length (map (\<lambda>b. b\<lparr>disabled := False, flagged := False, exploded := False,
            dataValue := None\<rparr>) g) =
        length (map (\<lambda>b. b\<lparr>disabled := False, flagged := False, exploded := False,
            dataValue := None\<rparr>) g')"
    using assms by (simp add: layout_def)
next
  fix k assume "k < length (map (\<lambda>b. b\<lparr>disabled := False, flagged := False, exploded := False,
            dataValue := None\<rparr>) g)"
  then have k: "k < w * h" using assms(1) by (simp add: layout_def)
  then have "dataX (g ! k) = dataX (g' ! k)" "dataY (g ! k) = dataY (g' ! k)"
    "k < length g" "k < length g'"
    using assms by (simp_all add: layout_def)
  then show "map (\<lambda>b. b\<lparr>disabled := False, flagged := False, exploded := False,
            dataValue := None\<rparr>) g ! k =
        map (\<lambda>b. b\<lparr>disabled := False, flagged := False, exploded := False,
            dataValue := None\<rparr>) g' ! k"
    by simp
qed

lemma restartGame_fresh:
  assumes s: "session w h v st" and dr: "\<forall>k. draws k < w * h" and mc: "0 \<le> minesCount st"
    and r: "restartGame draws v st = Some (v', st')"
  shows "v' = newView st'" and "session w h v' st'" and "settled w h v' st'"
proof -
  have w: "0 < w" and h: "0 < h" and sh: "shape w h (fields' st)" and lay: "layout w h (grid v)"
    using s by (simp_all add: session_def)
  have dims: "length (fields' st) = h" "length (fields' st ! 0) = w"
    using sh h by (auto simp: shape_def)
  have g: "initGameState draws w h (minesCount st) = Some st'" and v': "v' = initView v st'"
    using r unfolding restartGame_def dims by (auto split: option.splits)
  from generated_board [OF w h mc dr g] obtain M where "represents w h (fields' st') M" by blast
  then have sh': "shape w h (fields' st')" by (simp add: represents_def)
  note lay' = createFieldButtons_layout [OF sh' h]
  show eq: "v' = newView st'"
    unfolding v' newView_def initView_def using reset_layout [OF lay lay'] by simp
  show "session w h v' st'" unfolding eq using newView_session(1) [OF sh' w h] .
  show "settled w h v' st'" unfolding eq using newView_settled [OF sh' w h] .
qed

end
